theory Spec2Isabelle
  imports Complex_Main "HOL-Library.Log_Nat" "HOL-Library.Multiset"
begin

chapter \<open>Ordered cards of a Trello clone: positions, moves, broadcast, client state\<close>

text \<open>
  The development embeds five pieces of the repository, each from its source:
  \<^item> \<^verbatim>\<open>src/lib/position.ts\<close>: \<^verbatim>\<open>calculateNewPosition\<close>, on JavaScript numbers;
  \<^item> \<^verbatim>\<open>src/app/api/cards/route.ts\<close> (\<^verbatim>\<open>POST\<close>) and
    \<^verbatim>\<open>src/app/api/cards/[id]/move/route.ts\<close> (\<^verbatim>\<open>PATCH\<close>), on a relational store;
  \<^item> \<^verbatim>\<open>src/server/socket.ts\<close>: the room handlers of \<^verbatim>\<open>initializeSocket\<close>;
  \<^item> \<^verbatim>\<open>src/store/boardStore.ts\<close>: \<^verbatim>\<open>moveCard\<close>, called by the
    \<^verbatim>\<open>card:moved\<close> handler of \<^verbatim>\<open>useRealtimeBoard\<close>;
  \<^item> \<^verbatim>\<open>components/kanban-board.tsx\<close>: \<^verbatim>\<open>handleDragStart\<close> and \<^verbatim>\<open>handleDrop\<close>.

  Part I holds the definitions, Part II the properties.
\<close>

section \<open>Part I: the program\<close>

subsection \<open>JavaScript numbers\<close>

text \<open>
  A JavaScript \<^verbatim>\<open>number\<close> is an IEEE 754 binary64 value. A finite one is carried by the
  rational it denotes; the two infinities and NaN are values of their own. The two zeros
  of binary64 are one value here (they compare equal in JavaScript and the code below
  never divides by a zero).

  \<open>to_double\<close> is the rounding every arithmetic operation ends with: to the nearest value
  with a 53 bit significand, ties to the even significand, gradual underflow below
  \<open>2 powi - 1022\<close>, overflow to an infinity from \<open>2 powi 1024\<close> on. \<open>binade x\<close> is
  the exponent \<open>e\<close> with \<open>2 powi e \<le> x < 2 powi (e + 1)\<close>, read off the bit lengths of
  numerator and denominator.
\<close>

datatype number = Num rat | PosInfinity | NegInfinity | NaN

definition binade :: "rat \<Rightarrow> int" where
  "binade x =
     (let (p, q) = quotient_of x; d = bitlen p - bitlen q
      in if 2 powi d \<le> x then d else d - 1)"

definition round_half_even :: "rat \<Rightarrow> int" where
  "round_half_even x =
     (let f = \<lfloor>x\<rfloor>; r = x - of_int f
      in if r < 1 / 2 then f
         else if 1 / 2 < r then f + 1
         else if even f then f else f + 1)"

definition to_double :: "rat \<Rightarrow> number" where
  "to_double x =
     (if x = 0 then Num 0
      else let a = \<bar>x\<bar>;
               e = max (binade a) (- 1022);
               q = 2 powi (e - 52);
               r = of_int (round_half_even (a / q)) * q
           in if 2 powi 1024 \<le> r then (if 0 < x then PosInfinity else NegInfinity)
              else Num (if 0 < x then r else - r))"

text \<open>
The operator \<^verbatim>\<open>+\<close> on two numbers.
\<close>

fun js_add :: "number \<Rightarrow> number \<Rightarrow> number" where
  "js_add (Num a) (Num b) = to_double (a + b)"
| "js_add NaN _ = NaN"
| "js_add _ NaN = NaN"
| "js_add PosInfinity NegInfinity = NaN"
| "js_add NegInfinity PosInfinity = NaN"
| "js_add PosInfinity _ = PosInfinity"
| "js_add _ PosInfinity = PosInfinity"
| "js_add NegInfinity _ = NegInfinity"
| "js_add _ NegInfinity = NegInfinity"

text \<open>
The operator \<^verbatim>\<open>/\<close> on two numbers (a zero divisor counts as the positive zero).
\<close>

fun js_div :: "number \<Rightarrow> number \<Rightarrow> number" where
  "js_div (Num a) (Num b) =
     (if b = 0 then (if a = 0 then NaN else if 0 < a then PosInfinity else NegInfinity)
      else to_double (a / b))"
| "js_div NaN _ = NaN"
| "js_div _ NaN = NaN"
| "js_div (Num a) PosInfinity = Num 0"
| "js_div (Num a) NegInfinity = Num 0"
| "js_div PosInfinity (Num b) = (if 0 \<le> b then PosInfinity else NegInfinity)"
| "js_div NegInfinity (Num b) = (if 0 \<le> b then NegInfinity else PosInfinity)"
| "js_div _ _ = NaN"

text \<open>
The comparison \<^verbatim>\<open><\<close> on two numbers: false as soon as one of them is NaN.
\<close>

fun js_lt :: "number \<Rightarrow> number \<Rightarrow> bool" where
  "js_lt (Num a) (Num b) = (a < b)"
| "js_lt NaN _ = False"
| "js_lt _ NaN = False"
| "js_lt _ NegInfinity = False"
| "js_lt PosInfinity _ = False"
| "js_lt NegInfinity _ = True"
| "js_lt _ PosInfinity = True"

text \<open>
  A rational is representable when rounding leaves it alone: the representable rationals
  are the finite values of a JavaScript number. Two keys are adjacent when both are
  representable and no representable value lies strictly between them.
\<close>

definition representable :: "rat \<Rightarrow> bool" where
  "representable x = (to_double x = Num x)"

definition adjacent :: "rat \<Rightarrow> rat \<Rightarrow> bool" where
  "adjacent b a =
     (b < a \<and> representable b \<and> representable a
      \<and> \<not> (\<exists>r. b < r \<and> r < a \<and> representable r))"

text \<open>
  Three notions the properties of the rounding are stated with: the spacing of the doubles
  around a positive rational, the rational \<open>to_double\<close> rounds a positive rational to
  when that is below \<open>2 powi 1024\<close>, and the largest double
  (\<^verbatim>\<open>Number.MAX_VALUE\<close>).
\<close>

definition quantum :: "rat \<Rightarrow> rat" where
  "quantum x = 2 powi (max (binade x) (- 1022) - 52)"

definition nearest :: "rat \<Rightarrow> rat" where
  "nearest x = of_int (round_half_even (x / quantum x)) * quantum x"

definition max_double :: rat where
  "max_double = 2 powi 1024 - 2 powi 971"

subsection \<open>\<^verbatim>\<open>src/lib/position.ts\<close>\<close>

text \<open>
  \<^verbatim>\<open>calculateNewPosition(beforePosition: number | null, afterPosition: number | null): number\<close>.
  The four equations are the four \<^verbatim>\<open>return\<close> statements of the function, in its order.
\<close>

fun calculateNewPosition :: "number option \<Rightarrow> number option \<Rightarrow> number" where
  "calculateNewPosition None (Some afterPosition) = js_div afterPosition (Num 2)"
| "calculateNewPosition (Some beforePosition) None = js_add beforePosition (Num 1000)"
| "calculateNewPosition (Some beforePosition) (Some afterPosition) =
     js_div (js_add beforePosition afterPosition) (Num 2)"
| "calculateNewPosition None None = Num 1000"

text \<open>
  The outcome of a call, as a caller observes it: a thrown signal or a returned number.
  The body of \<^verbatim>\<open>calculateNewPosition\<close> has no \<^verbatim>\<open>throw\<close> and calls nothing that throws:
  each of its paths ends in a \<^verbatim>\<open>return\<close>.
\<close>

datatype signal = PrecisionExhausted

definition allocate :: "number option \<Rightarrow> number option \<Rightarrow> signal + number" where
  "allocate beforePosition afterPosition =
     Inr (calculateNewPosition beforePosition afterPosition)"

subsection \<open>The store behind the card routes\<close>

text \<open>
  JSON values, as \<^verbatim>\<open>NextResponse.json\<close> sends them and as the \<^verbatim>\<open>Json\<close> column of an
  activity stores them. \<open>json_get\<close> is the property lookup \<^verbatim>\<open>value.key\<close>:
  \<open>None\<close> stands for \<^verbatim>\<open>undefined\<close>.
\<close>

datatype json = JNull | JBool bool | JNumber int | JString string
  | JArray "json list" | JObject "(string \<times> json) list"


fun json_opt :: "('a \<Rightarrow> json) \<Rightarrow> 'a option \<Rightarrow> json" where
  "json_opt f None = JNull"
| "json_opt f (Some x) = f x"

text \<open>
  The tables of \<^verbatim>\<open>prisma/schema.prisma\<close> the two routes touch. A row of \<^verbatim>\<open>model Card\<close> has
  every scalar column of the model; \<^verbatim>\<open>position\<close> is \<^verbatim>\<open>Int\<close> (an integer here: PostgreSQL
  rejects a value outside its range, it never wraps one), instants are numbers. Of
  \<^verbatim>\<open>model List\<close> and \<^verbatim>\<open>model BoardMember\<close> only the columns the routes read are kept; of
  \<^verbatim>\<open>model Activity\<close> the columns the routes write. The relations a card is returned with
  (\<^verbatim>\<open>members\<close>, \<^verbatim>\<open>labels\<close>, \<^verbatim>\<open>_count\<close>) live in tables the routes never write: the store
  holds them as one opaque value per card id.
\<close>

record card =
  card_id :: string
  card_title :: string
  card_description :: "string option"
  card_listId :: string
  card_position :: int
  card_dueDate :: "nat option"
  card_cover :: "string option"
  card_archived :: bool
  card_createdAt :: nat
  card_updatedAt :: nat

record list_row =
  list_id :: string
  list_boardId :: string

record board_member =
  member_boardId :: string
  member_userId :: string

record activity =
  activity_action :: string
  activity_entityType :: string
  activity_entityId :: string
  activity_cardId :: "string option"
  activity_userId :: string
  activity_metadata :: json

record card_relations =
  rel_members :: json
  rel_labels :: json
  rel_count :: json

record db =
  db_lists :: "list_row list"
  db_members :: "board_member list"
  db_cards :: "card list"
  db_activities :: "activity list"
  db_relations :: "string \<Rightarrow> card_relations"

text \<open>
  The awaited calls of the two routes, each of which can throw: reading the session and
  the request body, the reads of the database and its writes. The errors of a write are
  a rejection from outside (a lost connection, a conflict), a missing row, a foreign key
  or unique constraint, and a position outside the range of the \<^verbatim>\<open>Int\<close> column.

  What a request brings with it and what the routes take from outside: the user of the
  session (\<^verbatim>\<open>session?.user?.id\<close>), the format checks of the validation library
  (\<^verbatim>\<open>cuid()\<close>, \<^verbatim>\<open>url()\<close>, \<^verbatim>\<open>datetime()\<close> with the instant a valid string denotes), the
  clock, the id \<^verbatim>\<open>@default(cuid())\<close> draws for a created card, and which of the awaited
  calls fail for a reason outside the store.
\<close>

datatype statement =
  GetSession | ReadBody | FindCard | FindList | CountCards
  | ShiftWithinList | ShiftSourceList | ShiftDestinationList | UpdateCard | CreateCard
  | CreateActivity | FindUpdatedCard

datatype db_error =
  Rejected statement | RecordNotFound | ForeignKeyViolation | UniqueViolation | ValueOutOfRange

record env =
  env_session :: "string option"
  env_cuid :: "string \<Rightarrow> bool"
  env_url :: "string \<Rightarrow> bool"
  env_datetime :: "string \<Rightarrow> nat option"
  env_now :: nat
  env_newId :: string
  env_rejects :: "statement \<Rightarrow> bool"

text \<open>
  A statement runs against the store and mutates it in place: it returns the error it
  raised, if any, and the store as it then stands. \<open>and_then\<close> is \<^verbatim>\<open>await a; await b\<close>:
  the error of the first statement skips the second.
\<close>

type_synonym stmt = "db \<Rightarrow> db_error option \<times> db"

definition and_then :: "stmt \<Rightarrow> stmt \<Rightarrow> stmt" where
  "and_then first second d =
     (case first d of (Some e, d') \<Rightarrow> (Some e, d') | (None, d') \<Rightarrow> second d')"

definition skip :: stmt where
  "skip d = (None, d)"

definition run_statement :: "env \<Rightarrow> statement \<Rightarrow> stmt \<Rightarrow> stmt" where
  "run_statement env s run d = (if env_rejects env s then (Some (Rejected s), d) else run d)"

text \<open>
  The client calls of the routes. \<^verbatim>\<open>position Int\<close> is a 32 bit signed column: a write of
  a position outside its range fails, it never wraps. \<^verbatim>\<open>updateMany\<close> writes \<^verbatim>\<open>data\<close> to
  every row \<^verbatim>\<open>where\<close> selects; \<^verbatim>\<open>update\<close> writes \<^verbatim>\<open>listId\<close> and \<^verbatim>\<open>position\<close> to the
  row of an id, and fails when there is no such row or no such list; both stamp
  \<^verbatim>\<open>@updatedAt\<close>. \<^verbatim>\<open>create\<close> fails on a taken id or a missing list. A statement that
  fails leaves the store as it found it. A number outside the range in a \<^verbatim>\<open>where\<close> is
  no error of its own here: in the move route that number is \<open>newPosition\<close>, which
  the update of the card writes in the same transaction.
\<close>

definition int4 :: "int \<Rightarrow> bool" where
  "int4 p = (- 2147483648 \<le> p \<and> p \<le> 2147483647)"

definition card_updateMany :: "env \<Rightarrow> (card \<Rightarrow> bool) \<Rightarrow> (card \<Rightarrow> card) \<Rightarrow> stmt" where
  "card_updateMany env wh data d =
     (if list_all int4 (map (\<lambda>c. card_position (data c)) (filter wh (db_cards d)))
      then (None, d\<lparr>db_cards :=
              map (\<lambda>c. if wh c then (data c)\<lparr>card_updatedAt := env_now env\<rparr> else c)
                (db_cards d)\<rparr>)
      else (Some ValueOutOfRange, d))"

definition decrement :: "card \<Rightarrow> card" where
  "decrement c = c\<lparr>card_position := card_position c - 1\<rparr>"

definition increment :: "card \<Rightarrow> card" where
  "increment c = c\<lparr>card_position := card_position c + 1\<rparr>"

definition card_update :: "env \<Rightarrow> string \<Rightarrow> string \<Rightarrow> int \<Rightarrow> stmt" where
  "card_update env ident listId position d =
     (if \<not> int4 position then (Some ValueOutOfRange, d)
      else if ident \<notin> set (map card_id (db_cards d)) then (Some RecordNotFound, d)
      else if listId \<notin> set (map list_id (db_lists d)) then (Some ForeignKeyViolation, d)
      else (None, d\<lparr>db_cards :=
              map (\<lambda>c. if card_id c = ident
                        then c\<lparr>card_listId := listId, card_position := position,
                               card_updatedAt := env_now env\<rparr>
                        else c)
                (db_cards d)\<rparr>))"

definition card_create :: "card \<Rightarrow> stmt" where
  "card_create c d =
     (if \<not> int4 (card_position c) then (Some ValueOutOfRange, d)
      else if card_id c \<in> set (map card_id (db_cards d)) then (Some UniqueViolation, d)
      else if card_listId c \<notin> set (map list_id (db_lists d)) then (Some ForeignKeyViolation, d)
      else (None, d\<lparr>db_cards := db_cards d @ [c]\<rparr>))"

definition activity_create :: "activity \<Rightarrow> stmt" where
  "activity_create a d = (None, d\<lparr>db_activities := db_activities d @ [a]\<rparr>)"

text \<open>
  What the other connections of the database can read while a request runs: the stores
  committed so far, oldest first, beginning with the store the request finds. The
  request itself reads the last of them.

  \<^verbatim>\<open>prisma.$transaction(async (tx) => ...)\<close> runs its body on the store as it stands. The
  writes of the body are its own until it returns: when the body throws, they are rolled
  back, no store is committed and the error is thrown on; otherwise the store the body
  leaves is committed, in one step. A call on \<^verbatim>\<open>prisma\<close> outside a transaction is a
  transaction of that one statement.
\<close>

type_synonym history = "db list"

type_synonym call = "history \<Rightarrow> db_error option \<times> history"

definition prisma_transaction :: "stmt \<Rightarrow> call" where
  "prisma_transaction body h =
     (case body (last h) of (Some e, d') \<Rightarrow> (Some e, h) | (None, d') \<Rightarrow> (None, h @ [d']))"

definition prisma_call :: "env \<Rightarrow> statement \<Rightarrow> stmt \<Rightarrow> call" where
  "prisma_call env s run = prisma_transaction (run_statement env s run)"

text \<open>
  The reads: \<^verbatim>\<open>findUnique\<close>, the member filter of the \<^verbatim>\<open>include\<close>, \<^verbatim>\<open>count\<close>, and
  \<^verbatim>\<open>findMany\<close> of one list with \<^verbatim>\<open>orderBy: { position: 'asc' }\<close>.
\<close>

definition card_findUnique :: "db \<Rightarrow> string \<Rightarrow> card option" where
  "card_findUnique d ident = find (\<lambda>c. card_id c = ident) (db_cards d)"

definition list_findUnique :: "db \<Rightarrow> string \<Rightarrow> list_row option" where
  "list_findUnique d ident = find (\<lambda>l. list_id l = ident) (db_lists d)"

definition board_members_of :: "db \<Rightarrow> string \<Rightarrow> string \<Rightarrow> board_member list" where
  "board_members_of d boardId userId =
     filter (\<lambda>m. member_boardId m = boardId \<and> member_userId m = userId) (db_members d)"

definition card_count :: "db \<Rightarrow> string \<Rightarrow> int" where
  "card_count d listId = int (length (filter (\<lambda>c. card_listId c = listId) (db_cards d)))"

definition card_findMany :: "db \<Rightarrow> string \<Rightarrow> card list" where
  "card_findMany d listId =
     sort_key card_position (filter (\<lambda>c. card_listId c = listId) (db_cards d))"

text \<open>
  A card as JSON: its scalar columns, then the included relations. A response is a status
  with a JSON body. Of a validation error only the paths of the failing fields are kept
  in \<^verbatim>\<open>details\<close>.
\<close>

definition card_scalars :: "card \<Rightarrow> (string \<times> json) list" where
  "card_scalars c =
     [(''id'', JString (card_id c)),
      (''title'', JString (card_title c)),
      (''description'', json_opt JString (card_description c)),
      (''listId'', JString (card_listId c)),
      (''position'', JNumber (card_position c)),
      (''dueDate'', json_opt (\<lambda>t. JNumber (int t)) (card_dueDate c)),
      (''cover'', json_opt JString (card_cover c)),
      (''archived'', JBool (card_archived c)),
      (''createdAt'', JNumber (int (card_createdAt c))),
      (''updatedAt'', JNumber (int (card_updatedAt c)))]"

definition card_with_relations :: "db \<Rightarrow> card \<Rightarrow> json" where
  "card_with_relations d c =
     JObject (card_scalars c @
       [(''members'', rel_members (db_relations d (card_id c))),
        (''labels'', rel_labels (db_relations d (card_id c))),
        (''_count'', rel_count (db_relations d (card_id c)))])"

datatype response = Response nat json

fun response_status :: "response \<Rightarrow> nat" where
  "response_status (Response status body) = status"


definition error_json :: "string \<Rightarrow> json" where
  "error_json message = JObject [(''error'', JString message)]"

definition validation_error :: "string list \<Rightarrow> response" where
  "validation_error paths =
     Response 400 (JObject [(''error'', JString ''Validation error''),
                            (''details'', JArray (map JString paths))])"

definition internal_error :: response where
  "internal_error = Response 500 (error_json ''Internal server error'')"

subsection \<open>\<^verbatim>\<open>PATCH /api/cards/[id]/move\<close>\<close>

text \<open>
  The parsed request body and \<^verbatim>\<open>moveCardSchema\<close>; \<^verbatim>\<open>.int()\<close> is the type of
  \<open>newPosition\<close>.
\<close>

record move_body =
  destinationListId :: string
  newPosition :: int

definition moveCardSchema_issues :: "env \<Rightarrow> move_body \<Rightarrow> string list" where
  "moveCardSchema_issues env body =
     (if env_cuid env (destinationListId body) then [] else [''destinationListId'']) @
     (if 0 \<le> newPosition body then [] else [''newPosition''])"

definition moved_activity :: "string \<Rightarrow> string \<Rightarrow> string \<Rightarrow> int \<Rightarrow> string \<Rightarrow> int \<Rightarrow> activity" where
  "moved_activity userId ident sourceListId sourcePosition destListId newPos =
     \<lparr>activity_action = ''moved'', activity_entityType = ''card'', activity_entityId = ident,
      activity_cardId = Some ident, activity_userId = userId,
      activity_metadata = JObject
        [(''from'', JObject [(''listId'', JString sourceListId), (''position'', JNumber sourcePosition)]),
         (''to'', JObject [(''listId'', JString destListId), (''position'', JNumber newPos)])]\<rparr>"

text \<open>
  The body of the transaction, in two parts: the \<^verbatim>\<open>if\<close> that shifts the siblings (within
  one list down or up, or out of the source list and into the destination list), then
  the update of the card itself and the activity record.
\<close>

definition shift_siblings :: "env \<Rightarrow> string \<Rightarrow> int \<Rightarrow> string \<Rightarrow> int \<Rightarrow> stmt" where
  "shift_siblings env sourceListId sourcePosition destListId newPos =
     (if sourceListId = destListId then
        (if sourcePosition < newPos then
           run_statement env ShiftWithinList
             (card_updateMany env
                (\<lambda>c. card_listId c = sourceListId
                      \<and> sourcePosition < card_position c \<and> card_position c \<le> newPos)
                decrement)
         else if newPos < sourcePosition then
           run_statement env ShiftWithinList
             (card_updateMany env
                (\<lambda>c. card_listId c = sourceListId
                      \<and> newPos \<le> card_position c \<and> card_position c < sourcePosition)
                increment)
         else skip)
      else
        and_then
          (run_statement env ShiftSourceList
             (card_updateMany env
                (\<lambda>c. card_listId c = sourceListId \<and> sourcePosition < card_position c)
                decrement))
          (run_statement env ShiftDestinationList
             (card_updateMany env
                (\<lambda>c. card_listId c = destListId \<and> newPos \<le> card_position c)
                increment)))"

definition move_transaction ::
  "env \<Rightarrow> string \<Rightarrow> string \<Rightarrow> string \<Rightarrow> int \<Rightarrow> string \<Rightarrow> int \<Rightarrow> stmt" where
  "move_transaction env userId ident sourceListId sourcePosition destListId newPos =
     and_then (shift_siblings env sourceListId sourcePosition destListId newPos)
       (and_then
          (run_statement env UpdateCard (card_update env ident destListId newPos))
          (run_statement env CreateActivity
             (activity_create
                (moved_activity userId ident sourceListId sourcePosition destListId newPos))))"

text \<open>
  The handler, statement by statement. Its \<^verbatim>\<open>catch\<close> turns a validation error into 400
  and every other error into 500: a failure of \<^verbatim>\<open>getServerSession\<close>, of
  \<^verbatim>\<open>req.json()\<close>, of the first \<^verbatim>\<open>findUnique\<close>, of the transaction, and of the
  \<^verbatim>\<open>findUnique\<close> that reads the card again once the transaction has committed. A card
  whose list row is missing cannot be read (\<^verbatim>\<open>card.list.board\<close> throws).
\<close>

definition PATCH_handler :: "env \<Rightarrow> string \<Rightarrow> move_body \<Rightarrow> history \<Rightarrow> response \<times> history" where
  "PATCH_handler env ident body h =
     (if env_rejects env GetSession then (internal_error, h)
      else case env_session env of
        None \<Rightarrow> (Response 401 (error_json ''Unauthorized''), h)
      | Some userId \<Rightarrow>
          if env_rejects env ReadBody then (internal_error, h)
          else if moveCardSchema_issues env body \<noteq> []
          then (validation_error (moveCardSchema_issues env body), h)
          else if env_rejects env FindCard then (internal_error, h)
          else
            (case card_findUnique (last h) ident of
               None \<Rightarrow> (Response 404 (error_json ''Card not found''), h)
             | Some found \<Rightarrow>
                 (case list_findUnique (last h) (card_listId found) of
                    None \<Rightarrow> (internal_error, h)
                  | Some lst \<Rightarrow>
                      if board_members_of (last h) (list_boardId lst) userId = []
                      then (Response 403 (error_json ''Forbidden''), h)
                      else
                        (case prisma_transaction
                                (move_transaction env userId ident (card_listId found)
                                   (card_position found) (destinationListId body)
                                   (newPosition body)) h of
                           (Some e, h') \<Rightarrow> (internal_error, h')
                         | (None, h') \<Rightarrow>
                             if env_rejects env FindUpdatedCard then (internal_error, h')
                             else
                               (Response 200
                                  (json_opt (card_with_relations (last h'))
                                     (card_findUnique (last h') ident)),
                                h')))))"

text \<open>
  The route from one request to the next: the response, and the store the request leaves.
\<close>

definition PATCH :: "env \<Rightarrow> string \<Rightarrow> move_body \<Rightarrow> db \<Rightarrow> response \<times> db" where
  "PATCH env ident body d =
     (case PATCH_handler env ident body [d] of (resp, h) \<Rightarrow> (resp, last h))"

subsection \<open>\<^verbatim>\<open>POST /api/cards\<close>\<close>

text \<open>
  The parsed request body and \<^verbatim>\<open>createCardSchema\<close>. The count of the list is read only
  when the body has no position (\<^verbatim>\<open>??\<close>). The card and its activity are created one
  after the other, outside any transaction; the response is the card as \<^verbatim>\<open>create\<close>
  returned it.
\<close>

record create_body =
  create_title :: string
  create_description :: "string option"
  create_listId :: string
  create_position :: "int option"
  create_dueDate :: "string option"
  create_cover :: "string option"

definition createCardSchema_issues :: "env \<Rightarrow> create_body \<Rightarrow> string list" where
  "createCardSchema_issues env body =
     (if 1 \<le> length (create_title body) \<and> length (create_title body) \<le> 200
      then [] else [''title'']) @
     (case create_description body of
        None \<Rightarrow> [] | Some t \<Rightarrow> if length t \<le> 5000 then [] else [''description'']) @
     (if env_cuid env (create_listId body) then [] else [''listId'']) @
     (case create_position body of
        None \<Rightarrow> [] | Some p \<Rightarrow> if 0 \<le> p then [] else [''position'']) @
     (case create_dueDate body of
        None \<Rightarrow> [] | Some t \<Rightarrow> if env_datetime env t \<noteq> None then [] else [''dueDate'']) @
     (case create_cover body of
        None \<Rightarrow> [] | Some u \<Rightarrow> if env_url env u then [] else [''cover''])"

definition created_activity :: "string \<Rightarrow> card \<Rightarrow> activity" where
  "created_activity userId c =
     \<lparr>activity_action = ''created'', activity_entityType = ''card'',
      activity_entityId = card_id c, activity_cardId = Some (card_id c),
      activity_userId = userId,
      activity_metadata = JObject
        [(''cardTitle'', JString (card_title c)), (''listId'', JString (card_listId c))]\<rparr>"

definition new_card :: "env \<Rightarrow> create_body \<Rightarrow> int \<Rightarrow> card" where
  "new_card env body position =
     \<lparr>card_id = env_newId env,
      card_title = create_title body,
      card_description = create_description body,
      card_listId = create_listId body,
      card_position = position,
      card_dueDate = (case create_dueDate body of None \<Rightarrow> None | Some t \<Rightarrow> env_datetime env t),
      card_cover = create_cover body,
      card_archived = False,
      card_createdAt = env_now env,
      card_updatedAt = env_now env\<rparr>"

definition POST_handler :: "env \<Rightarrow> create_body \<Rightarrow> history \<Rightarrow> response \<times> history" where
  "POST_handler env body h =
     (if env_rejects env GetSession then (internal_error, h)
      else case env_session env of
        None \<Rightarrow> (Response 401 (error_json ''Unauthorized''), h)
      | Some userId \<Rightarrow>
          if env_rejects env ReadBody then (internal_error, h)
          else if createCardSchema_issues env body \<noteq> []
          then (validation_error (createCardSchema_issues env body), h)
          else if env_rejects env FindList then (internal_error, h)
          else
            (case list_findUnique (last h) (create_listId body) of
               None \<Rightarrow> (Response 404 (error_json ''List not found''), h)
             | Some lst \<Rightarrow>
                 if board_members_of (last h) (list_boardId lst) userId = []
                 then (Response 403 (error_json ''Forbidden''), h)
                 else if create_position body = None \<and> env_rejects env CountCards
                 then (internal_error, h)
                 else
                   (let position = (case create_position body of
                                      Some p \<Rightarrow> p
                                    | None \<Rightarrow> card_count (last h) (create_listId body));
                        created = new_card env body position
                    in case prisma_call env CreateCard (card_create created) h of
                         (Some e, h1) \<Rightarrow> (internal_error, h1)
                       | (None, h1) \<Rightarrow>
                           (case prisma_call env CreateActivity
                                   (activity_create (created_activity userId created)) h1 of
                              (Some e, h2) \<Rightarrow> (internal_error, h2)
                            | (None, h2) \<Rightarrow>
                                (Response 201 (card_with_relations (last h1) created), h2)))))"

definition POST :: "env \<Rightarrow> create_body \<Rightarrow> db \<Rightarrow> response \<times> db" where
  "POST env body d =
     (case POST_handler env body [d] of (resp, h) \<Rightarrow> (resp, last h))"

subsection \<open>What the claims say about the store\<close>

text \<open>
  The order invariant: in every list that has cards, the cards listed by ascending
  position have strictly increasing positions. A list is dense when its positions are
  \<open>0, 1, \<dots>, n - 1\<close>.
\<close>

definition order_invariant :: "db \<Rightarrow> bool" where
  "order_invariant d =
     list_all (\<lambda>l. sorted_wrt (<) (map card_position (card_findMany d l)))
       (map card_listId (db_cards d))"

definition dense_positions :: "db \<Rightarrow> string \<Rightarrow> bool" where
  "dense_positions d l =
     (map card_position (card_findMany d l) = map int [0 ..< length (card_findMany d l)])"

definition position_key :: "card \<Rightarrow> string \<times> int" where
  "position_key c = (card_listId c, card_position c)"

text \<open>
  The position a sibling at \<open>p\<close> in list \<open>l\<close> has after a card left \<open>(src, s)\<close> for
  \<open>(dst, n)\<close>; the row of a sibling and of any card after the commit; the store after the
  commit.
\<close>

definition shifted_position :: "string \<Rightarrow> int \<Rightarrow> string \<Rightarrow> int \<Rightarrow> string \<Rightarrow> int \<Rightarrow> int" where
  "shifted_position src s dst n l p =
     (if src = dst then
        (if l = src \<and> s < p \<and> p \<le> n then p - 1
         else if l = src \<and> n \<le> p \<and> p < s then p + 1
         else p)
      else
        (if l = src \<and> s < p then p - 1
         else if l = dst \<and> n \<le> p then p + 1
         else p))"

definition shifted_row :: "env \<Rightarrow> string \<Rightarrow> int \<Rightarrow> string \<Rightarrow> int \<Rightarrow> card \<Rightarrow> card" where
  "shifted_row env src s dst n c =
     (if shifted_position src s dst n (card_listId c) (card_position c) = card_position c
      then c
      else c\<lparr>card_position := shifted_position src s dst n (card_listId c) (card_position c),
             card_updatedAt := env_now env\<rparr>)"

definition moved_row :: "env \<Rightarrow> string \<Rightarrow> string \<Rightarrow> int \<Rightarrow> string \<Rightarrow> int \<Rightarrow> card \<Rightarrow> card" where
  "moved_row env ident src s dst n c =
     (if card_id c = ident
      then c\<lparr>card_listId := dst, card_position := n, card_updatedAt := env_now env\<rparr>
      else shifted_row env src s dst n c)"

definition committed_move :: "env \<Rightarrow> string \<Rightarrow> move_body \<Rightarrow> db \<Rightarrow> string \<Rightarrow> card \<Rightarrow> db" where
  "committed_move env ident body d userId found =
     d\<lparr>db_cards :=
         map (moved_row env ident (card_listId found) (card_position found)
                (destinationListId body) (newPosition body)) (db_cards d),
       db_activities := db_activities d @
         [moved_activity userId ident (card_listId found) (card_position found)
            (destinationListId body) (newPosition body)]\<rparr>"

text \<open>
  A store is dense when every list with cards is; an index a client may send for a move
  out of list \<open>sourceListId\<close> into list \<open>destListId\<close>: a place among the cards of the
  list when the card stays in it, a place among them or the end when it comes from
  another list.
\<close>

definition dense_board :: "db \<Rightarrow> bool" where
  "dense_board d = list_all (dense_positions d) (map card_listId (db_cards d))"

definition valid_index :: "db \<Rightarrow> string \<Rightarrow> string \<Rightarrow> int \<Rightarrow> bool" where
  "valid_index d sourceListId destListId n =
     (0 \<le> n \<and> (if sourceListId = destListId then n < card_count d destListId
                 else n \<le> card_count d destListId))"

subsection \<open>\<^verbatim>\<open>src/server/socket.ts\<close>\<close>

text \<open>
  The server keeps the connected sockets with their authenticated user and, per room
  name, the set of socket ids in the room. A socket is in the room of its own id from its
  connection on. \<^verbatim>\<open>socket.to(room).emit(event, data)\<close> reaches the sockets of the room but
  those of the sender's own room.
\<close>

record socket_user =
  user_id :: string
  user_email :: string
  user_name :: "string option"

record moved_data =
  moved_cardId :: string
  moved_sourceListId :: string
  moved_destListId :: string
  moved_newPosition :: int

datatype server_event =
  BoardUserJoined string "string option" string
  | BoardActiveUsers "(string \<times> string option \<times> string) set"
  | BoardUserLeft string string
  | CardMoved moved_data

record io =
  io_sockets :: "string \<rightharpoonup> socket_user"
  io_rooms :: "string \<Rightarrow> string set"

definition io_start :: io where
  "io_start = \<lparr>io_sockets = Map.empty, io_rooms = (\<lambda>room. {})\<rparr>"

definition board_room :: "string \<Rightarrow> string" where
  "board_room boardId = ''board:'' @ boardId"

definition socket_join :: "string \<Rightarrow> string \<Rightarrow> io \<Rightarrow> io" where
  "socket_join sid room s = s\<lparr>io_rooms := (io_rooms s)(room := insert sid (io_rooms s room))\<rparr>"

definition socket_leave :: "string \<Rightarrow> string \<Rightarrow> io \<Rightarrow> io" where
  "socket_leave sid room s = s\<lparr>io_rooms := (io_rooms s)(room := io_rooms s room - {sid})\<rparr>"

definition socket_to_emit :: "io \<Rightarrow> string \<Rightarrow> string \<Rightarrow> server_event \<Rightarrow> (string \<times> server_event) set" where
  "socket_to_emit s sid room ev = (\<lambda>t. (t, ev)) ` (io_rooms s room - io_rooms s sid)"

datatype client_event =
  Connection socket_user
  | BoardJoin string
  | BoardLeave string
  | CardMovedBy string moved_data
  | Disconnect

definition presence :: "io \<Rightarrow> string \<Rightarrow> string \<times> string option \<times> string" where
  "presence s sid =
     (case io_sockets s sid of
        None \<Rightarrow> ([], None, sid)
      | Some u \<Rightarrow> (user_id u, user_name u, sid))"

text \<open>
  One event of one socket: the new server state and what is delivered to whom. The
  handlers are registered on \<^verbatim>\<open>connection\<close>, so an event of an unknown socket does
  nothing. When \<^verbatim>\<open>disconnect\<close> fires the socket has left its rooms already.
  \<open>io_after\<close> runs a history, most recent event first.
\<close>

fun io_handle :: "io \<Rightarrow> string \<times> client_event \<Rightarrow> io \<times> (string \<times> server_event) set" where
  "io_handle s (sid, Connection u) =
     (socket_join sid sid (s\<lparr>io_sockets := (io_sockets s)(sid \<mapsto> u)\<rparr>), {})"
| "io_handle s (sid, e) =
     (case io_sockets s sid of
        None \<Rightarrow> (s, {})
      | Some u \<Rightarrow>
          (case e of
             BoardJoin boardId \<Rightarrow>
               (let s' = socket_join sid (board_room boardId) s
                in (s',
                    socket_to_emit s' sid (board_room boardId)
                      (BoardUserJoined (user_id u) (user_name u) sid)
                    \<union> {(sid, BoardActiveUsers
                                (presence s' ` (io_rooms s' (board_room boardId) - {sid})))}))
           | BoardLeave boardId \<Rightarrow>
               (let s' = socket_leave sid (board_room boardId) s
                in (s', socket_to_emit s' sid (board_room boardId)
                          (BoardUserLeft (user_id u) sid)))
           | CardMovedBy boardId data \<Rightarrow>
               (s, socket_to_emit s sid (board_room boardId) (CardMoved data))
           | Disconnect \<Rightarrow>
               (s\<lparr>io_sockets := (io_sockets s)(sid := None),
                  io_rooms := (\<lambda>room. io_rooms s room - {sid})\<rparr>, {})
           | Connection v \<Rightarrow> (s, {})))"

fun io_after :: "(string \<times> client_event) list \<Rightarrow> io" where
  "io_after [] = io_start"
| "io_after (ev # older) = fst (io_handle (io_after older) ev)"

text \<open>
  Membership as the spec words it, read off the history alone: a socket is connected
  from its connection to its disconnect, and has joined a board when its last join of
  the board is more recent than any leave of it and than any disconnect.
  Socket ids are drawn by the server and never start with \<^verbatim>\<open>board:\<close>.
\<close>

fun joined_board :: "(string \<times> client_event) list \<Rightarrow> string \<Rightarrow> string \<Rightarrow> bool"
  and socket_connected :: "(string \<times> client_event) list \<Rightarrow> string \<Rightarrow> bool" where
  "joined_board [] sid boardId = False"
| "socket_connected [] sid = False"
| "socket_connected (ev # older) sid =
     (if fst ev = sid
      then (case snd ev of Connection u \<Rightarrow> True | Disconnect \<Rightarrow> False | _ \<Rightarrow> socket_connected older sid)
      else socket_connected older sid)"
| "joined_board (ev # older) sid boardId =
     (if fst ev = sid \<and> socket_connected older sid
      then (case snd ev of
              BoardJoin b \<Rightarrow> b = boardId \<or> joined_board older sid boardId
            | BoardLeave b \<Rightarrow> b \<noteq> boardId \<and> joined_board older sid boardId
            | Disconnect \<Rightarrow> False
            | _ \<Rightarrow> joined_board older sid boardId)
      else joined_board older sid boardId)"

definition socket_ids_ok :: "(string \<times> client_event) list \<Rightarrow> bool" where
  "socket_ids_ok h = list_all (\<lambda>ev. take 6 (fst ev) \<noteq> ''board:'') h"

subsection \<open>\<^verbatim>\<open>src/store/boardStore.ts\<close> and \<^verbatim>\<open>useRealtimeBoard\<close>\<close>

text \<open>
  \<^verbatim>\<open>cards: Record<string, Card[]>\<close> is an association list in the order of its keys
  (list ids are not integer-like, so \<^verbatim>\<open>for ... in\<close> visits them in insertion order).
  \<^verbatim>\<open>findIndex\<close> gives \<open>None\<close> for \<^verbatim>\<open>-1\<close>; \<^verbatim>\<open>splice(i, 1)\<close> and
  \<^verbatim>\<open>splice(start, 0, x)\<close> are \<open>splice_out\<close> and \<open>splice_in\<close>, the latter with
  JavaScript's reading of a negative or too large \<^verbatim>\<open>start\<close>; \<open>renumber_from 0\<close> is the
  \<^verbatim>\<open>forEach\<close> that writes each index as position.
\<close>

fun findIndex :: "('a \<Rightarrow> bool) \<Rightarrow> 'a list \<Rightarrow> nat option" where
  "findIndex P [] = None"
| "findIndex P (x # xs) =
     (if P x then Some 0 else map_option Suc (findIndex P xs))"

definition splice_out :: "nat \<Rightarrow> 'a list \<Rightarrow> 'a list" where
  "splice_out i xs = take i xs @ drop (Suc i) xs"

definition splice_in :: "int \<Rightarrow> 'a \<Rightarrow> 'a list \<Rightarrow> 'a list" where
  "splice_in start x xs =
     (let len = int (length xs);
          k = (if start < 0 then max (len + start) 0 else min start len)
      in take (nat k) xs @ x # drop (nat k) xs)"

fun renumber_from :: "nat \<Rightarrow> card list \<Rightarrow> card list" where
  "renumber_from i [] = []"
| "renumber_from i (c # cs) = c\<lparr>card_position := int i\<rparr> # renumber_from (Suc i) cs"

type_synonym cards_by_list = "(string \<times> card list) list"

text \<open>
  \<open>take_card\<close> is the loop that finds the card and removes it from the first list
  holding it; \<open>at_key\<close> mutates the array stored under a key. \<^verbatim>\<open>state.cards[newListId]\<close>
  of a key the record does not have is \<^verbatim>\<open>undefined\<close>, and the list is then created,
  unless the key names a property of \<^verbatim>\<open>Object.prototype\<close>: the value read is then that
  property, which has no \<^verbatim>\<open>splice\<close>, the recipe throws and the store keeps the state
  it had.
\<close>

fun take_card :: "string \<Rightarrow> cards_by_list \<Rightarrow> card option \<times> cards_by_list" where
  "take_card cardId [] = (None, [])"
| "take_card cardId ((listId, cs) # rest) =
     (case findIndex (\<lambda>c. card_id c = cardId) cs of
        Some i \<Rightarrow> (Some (cs ! i), (listId, splice_out i cs) # rest)
      | None \<Rightarrow> (case take_card cardId rest of (found, rest') \<Rightarrow> (found, (listId, cs) # rest')))"

definition at_key :: "string \<Rightarrow> (card list \<Rightarrow> card list) \<Rightarrow> cards_by_list \<Rightarrow> cards_by_list" where
  "at_key listId f cards = map (\<lambda>(k, cs). if k = listId then (k, f cs) else (k, cs)) cards"

definition prototype_key :: "string \<Rightarrow> bool" where
  "prototype_key k =
     (k \<in> set [''constructor'', ''hasOwnProperty'', ''isPrototypeOf'', ''propertyIsEnumerable'',
                ''toLocaleString'', ''toString'', ''valueOf'', ''__proto__'',
                ''__defineGetter__'', ''__defineSetter__'', ''__lookupGetter__'',
                ''__lookupSetter__''])"

definition moveCard :: "string \<Rightarrow> string \<Rightarrow> int \<Rightarrow> cards_by_list \<Rightarrow> cards_by_list" where
  "moveCard cardId newListId newPos cards =
     (case take_card cardId cards of
        (None, cards1) \<Rightarrow> cards1
      | (Some found, cards1) \<Rightarrow>
          if map_of cards1 newListId = None \<and> prototype_key newListId then cards
          else
            (let moved = found\<lparr>card_listId := newListId, card_position := newPos\<rparr>;
                 cards2 = (if map_of cards1 newListId = None
                           then cards1 @ [(newListId, [])] else cards1);
                 cards3 = at_key newListId (splice_in newPos moved) cards2
             in at_key newListId (renumber_from 0) cards3))"

text \<open>The \<^verbatim>\<open>card:moved\<close> handler of \<^verbatim>\<open>useRealtimeBoard\<close>.\<close>

definition on_card_moved :: "moved_data \<Rightarrow> cards_by_list \<Rightarrow> cards_by_list" where
  "on_card_moved data cards =
     moveCard (moved_cardId data) (moved_destListId data) (moved_newPosition data) cards"

text \<open>
  The card ids of a client state; the index \<^verbatim>\<open>splice\<close> inserts at; a card placed in a
  list and the list renumbered.
\<close>

definition card_ids :: "cards_by_list \<Rightarrow> string list" where
  "card_ids cards = map card_id (concat (map snd cards))"

definition insertion_index :: "int \<Rightarrow> nat \<Rightarrow> nat" where
  "insertion_index start len =
     nat (if start < 0 then max (int len + start) 0 else min start (int len))"

definition placed :: "int \<Rightarrow> card \<Rightarrow> card list \<Rightarrow> card list" where
  "placed start m xs = renumber_from 0 (splice_in start m xs)"

subsection \<open>\<^verbatim>\<open>components/kanban-board.tsx\<close>\<close>

text \<open>
  The state of \<^verbatim>\<open>KanbanBoard\<close> the drag handlers use: \<^verbatim>\<open>columns\<close>, \<^verbatim>\<open>draggedTask\<close>
  and \<^verbatim>\<open>dragOverColumnId\<close>.
\<close>

datatype priority = Low | Medium | High

record task =
  task_id :: string
  task_title :: string
  task_description :: "string option"
  task_priority :: "priority option"
  task_assignee :: "string option"
  task_dueDate :: "string option"
  task_tags :: "string list option"

record column =
  column_id :: string
  column_title :: string
  column_tasks :: "task list"

record kanban =
  columns :: "column list"
  draggedTask :: "(task \<times> string) option"
  dragOverColumnId :: "string option"

definition handleDragStart :: "task \<Rightarrow> string \<Rightarrow> kanban \<Rightarrow> kanban" where
  "handleDragStart t sourceColumnId st = st\<lparr>draggedTask := Some (t, sourceColumnId)\<rparr>"

definition handleDrop :: "string \<Rightarrow> kanban \<Rightarrow> kanban" where
  "handleDrop targetColumnId st =
     (case draggedTask st of
        None \<Rightarrow> st
      | Some (t, sourceColumnId) \<Rightarrow>
          if sourceColumnId = targetColumnId
          then st\<lparr>draggedTask := None, dragOverColumnId := None\<rparr>
          else st\<lparr>columns :=
                    map (\<lambda>col.
                           if column_id col = sourceColumnId
                           then col\<lparr>column_tasks :=
                                  filter (\<lambda>x. task_id x \<noteq> task_id t) (column_tasks col)\<rparr>
                           else if column_id col = targetColumnId
                           then col\<lparr>column_tasks := column_tasks col @ [t]\<rparr>
                           else col)
                      (columns st),
                  draggedTask := None, dragOverColumnId := None\<rparr>)"

text \<open>
  The tasks of a board as a multiset; a board whose column ids are distinct and whose
  task ids are distinct within each column; a task sitting in the column of an id; a
  column after the task \<open>t\<close> went from \<open>src\<close> to \<open>target\<close>.
\<close>

definition all_tasks :: "kanban \<Rightarrow> task multiset" where
  "all_tasks st = mset (concat (map column_tasks (columns st)))"

definition kanban_well_formed :: "kanban \<Rightarrow> bool" where
  "kanban_well_formed st =
     (distinct (map column_id (columns st))
      \<and> list_all (\<lambda>col. distinct (map task_id (column_tasks col))) (columns st))"

definition task_in_column :: "kanban \<Rightarrow> task \<Rightarrow> string \<Rightarrow> bool" where
  "task_in_column st t columnId =
     list_ex (\<lambda>col. column_id col = columnId \<and> t \<in> set (column_tasks col)) (columns st)"

definition dropped_column :: "task \<Rightarrow> string \<Rightarrow> string \<Rightarrow> column \<Rightarrow> column" where
  "dropped_column t src target col =
     (if column_id col = src then col\<lparr>column_tasks := remove1 t (column_tasks col)\<rparr>
      else if column_id col = target then col\<lparr>column_tasks := column_tasks col @ [t]\<rparr>
      else col)"

subsection \<open>Sample states\<close>

text \<open>
  One board with two lists and three cards, a signed-in member, an environment in which
  no call fails (or one); the sample move and the store it commits; the list A at 1, B at
  2, C at 3 with the move of C to position 2; four sockets, of which three are in the
  room of board \<^verbatim>\<open>b1\<close> at some time; a client state of the same three cards; a kanban
  board, and one whose backlog holds two tasks of the same id.
\<close>

definition demo_env :: env where
  "demo_env =
     \<lparr>env_session = Some ''user1'',
      env_cuid = (\<lambda>s. take 1 s = ''c'' \<and> 9 \<le> length s),
      env_url = (\<lambda>s. take 8 s = ''https://''),
      env_datetime = (\<lambda>s. None),
      env_now = 7,
      env_newId = ''ccard0009'',
      env_rejects = (\<lambda>s. False)\<rparr>"

definition failing_env :: "statement \<Rightarrow> env" where
  "failing_env s = demo_env\<lparr>env_rejects := (\<lambda>x. x = s)\<rparr>"

definition demo_card :: "string \<Rightarrow> string \<Rightarrow> int \<Rightarrow> card" where
  "demo_card ident listId position =
     \<lparr>card_id = ident, card_title = ''task'', card_description = None, card_listId = listId,
      card_position = position, card_dueDate = None, card_cover = None,
      card_archived = False, card_createdAt = 1, card_updatedAt = 1\<rparr>"

definition demo_db :: "card list \<Rightarrow> db" where
  "demo_db cs =
     \<lparr>db_lists = [\<lparr>list_id = ''clist0001'', list_boardId = ''cboard001''\<rparr>,
                  \<lparr>list_id = ''clist0002'', list_boardId = ''cboard001''\<rparr>],
      db_members = [\<lparr>member_boardId = ''cboard001'', member_userId = ''user1''\<rparr>],
      db_cards = cs,
      db_activities = [],
      db_relations = (\<lambda>ident. \<lparr>rel_members = JArray [], rel_labels = JArray [],
                                 rel_count = JObject []\<rparr>)\<rparr>"

definition demo_create :: "int option \<Rightarrow> create_body" where
  "demo_create position =
     \<lparr>create_title = ''task'', create_description = None, create_listId = ''clist0001'',
      create_position = position, create_dueDate = None, create_cover = None\<rparr>"

definition demo_board :: db where
  "demo_board = demo_db [demo_card ''ccard0001'' ''clist0001'' 0,
                         demo_card ''ccard0002'' ''clist0001'' 1,
                         demo_card ''ccard0003'' ''clist0002'' 0]"

definition demo_move :: move_body where
  "demo_move = \<lparr>destinationListId = ''clist0002'', newPosition = 0\<rparr>"

definition demo_committed :: db where
  "demo_committed =
     demo_board\<lparr>db_cards :=
          [(demo_card ''ccard0001'' ''clist0002'' 0)\<lparr>card_updatedAt := 7\<rparr>,
           (demo_card ''ccard0002'' ''clist0001'' 0)\<lparr>card_updatedAt := 7\<rparr>,
           (demo_card ''ccard0003'' ''clist0002'' 1)\<lparr>card_updatedAt := 7\<rparr>],
        db_activities :=
          [moved_activity ''user1'' ''ccard0001'' ''clist0001'' 0 ''clist0002'' 0]\<rparr>"

definition scenario_board :: db where
  "scenario_board = demo_db [demo_card ''A'' ''clist0001'' 1,
                             demo_card ''B'' ''clist0001'' 2,
                             demo_card ''C'' ''clist0001'' 3]"

definition scenario_move :: move_body where
  "scenario_move = \<lparr>destinationListId = ''clist0001'', newPosition = 2\<rparr>"

definition demo_user :: "string \<Rightarrow> socket_user" where
  "demo_user name = \<lparr>user_id = name, user_email = name @ ''@example.org'', user_name = Some name\<rparr>"

definition demo_moved :: moved_data where
  "demo_moved = \<lparr>moved_cardId = ''ccard0001'', moved_sourceListId = ''clist0001'',
                  moved_destListId = ''clist0002'', moved_newPosition = 0\<rparr>"

definition demo_history :: "(string \<times> client_event) list" where
  "demo_history =
     [(''sock4'', BoardLeave ''b1''),
      (''sock3'', BoardJoin ''b2''),
      (''sock4'', BoardJoin ''b1''),
      (''sock2'', BoardJoin ''b1''),
      (''sock1'', BoardJoin ''b1''),
      (''sock4'', Connection (demo_user ''dan'')),
      (''sock3'', Connection (demo_user ''cy'')),
      (''sock2'', Connection (demo_user ''bo'')),
      (''sock1'', Connection (demo_user ''ann''))]"

definition demo_cards :: cards_by_list where
  "demo_cards =
     [(''clist0001'', [demo_card ''ccard0001'' ''clist0001'' 0, demo_card ''ccard0002'' ''clist0001'' 1]),
      (''clist0002'', [demo_card ''ccard0003'' ''clist0002'' 0])]"

definition demo_task :: "string \<Rightarrow> task" where
  "demo_task ident =
     \<lparr>task_id = ident, task_title = ''Research competitor features'',
      task_description = None, task_priority = Some Medium, task_assignee = Some ''Sarah'',
      task_dueDate = None, task_tags = None\<rparr>"

definition demo_kanban :: kanban where
  "demo_kanban =
     \<lparr>columns =
        [\<lparr>column_id = ''backlog'', column_title = ''Backlog'',
          column_tasks = [demo_task ''1'', demo_task ''2'']\<rparr>,
         \<lparr>column_id = ''todo'', column_title = ''To Do'', column_tasks = [demo_task ''4'']\<rparr>,
         \<lparr>column_id = ''done'', column_title = ''Done'', column_tasks = []\<rparr>],
      draggedTask = None, dragOverColumnId = None\<rparr>"

definition duplicate_kanban :: kanban where
  "duplicate_kanban =
     \<lparr>columns =
        [\<lparr>column_id = ''backlog'', column_title = ''Backlog'',
          column_tasks = [demo_task ''1'', (demo_task ''1'')\<lparr>task_title := ''Write the report''\<rparr>,
                          demo_task ''2'']\<rparr>,
         \<lparr>column_id = ''todo'', column_title = ''To Do'', column_tasks = [demo_task ''4'']\<rparr>],
      draggedTask = None, dragOverColumnId = None\<rparr>"

section \<open>Part II: properties\<close>

subsection \<open>Unfolding the routes and the samples\<close>

lemmas demo_defs = demo_env_def demo_card_def demo_db_def demo_create_def

lemmas handler_defs = PATCH_def POST_def PATCH_handler_def POST_handler_def prisma_call_def Let_def
  internal_error_def int4_def moveCardSchema_issues_def createCardSchema_issues_def
  card_findUnique_def list_findUnique_def board_members_of_def card_count_def
  prisma_transaction_def move_transaction_def shift_siblings_def and_then_def run_statement_def
  card_updateMany_def card_update_def card_create_def activity_create_def skip_def
  decrement_def increment_def new_card_def moved_activity_def created_activity_def
  card_with_relations_def card_scalars_def error_json_def validation_error_def

subsection \<open>The binade of a positive rational\<close>

lemma bitlen_powi_bounds:
  assumes "0 < p"
  shows "(2::rat) powi (bitlen p - 1) \<le> of_int p" and "of_int p < (2::rat) powi (bitlen p)"
proof -
  from bitlen_bounds[OF assms]
  have a: "2 ^ nat (bitlen p - 1) \<le> p" and b: "p < 2 ^ nat (bitlen p)" by auto
  have ge1: "1 \<le> bitlen p" using assms by (simp add: bitlen_alt_def)
  have "(of_int (2 ^ nat (bitlen p - 1)) :: rat) \<le> of_int p"
    using a by (simp only: of_int_le_iff)
  then show "(2::rat) powi (bitlen p - 1) \<le> of_int p"
    using ge1 by (simp add: power_int_def)
  have "(of_int p :: rat) < of_int (2 ^ nat (bitlen p))"
    using b by (simp only: of_int_less_iff)
  then show "of_int p < (2::rat) powi (bitlen p)"
    using ge1 by (simp add: power_int_def)
qed

lemma binade_bounds:
  assumes "0 < x"
  shows "2 powi binade x \<le> x \<and> x < 2 powi (binade x + 1)"
proof -
  obtain p q where pq: "quotient_of x = (p, q)" by (cases "quotient_of x")
  then have q: "0 < q" using quotient_of_denom_pos by blast
  have x: "x = of_int p / of_int q" using pq by (rule quotient_of_div)
  have p: "0 < p" using assms q x by (simp add: zero_less_divide_iff)
  let ?d = "bitlen p - bitlen q"
  note P = bitlen_powi_bounds[OF p] and Q = bitlen_powi_bounds[OF q]
  have qpos: "(0::rat) < of_int q" using q by simp
  have lo: "2 powi (?d - 1) < x"
  proof -
    have "(2::rat) powi (?d - 1) = 2 powi (bitlen p - 1) / 2 powi (bitlen q)"
      by (simp add: power_int_diff)
    also have "\<dots> \<le> of_int p / 2 powi (bitlen q)"
      using P(1) by (simp add: divide_right_mono)
    also have "\<dots> < of_int p / of_int q"
      using Q(2) p qpos by (simp add: divide_strict_left_mono)
    finally show ?thesis using x by simp
  qed
  have hi: "x < 2 powi (?d + 1)"
  proof -
    have "x = of_int p / of_int q" by (rule x)
    also have "\<dots> < 2 powi (bitlen p) / of_int q"
      using P(2) qpos by (simp add: divide_strict_right_mono)
    also have "\<dots> \<le> 2 powi (bitlen p) / 2 powi (bitlen q - 1)"
      using Q(1) by (intro frac_le) simp_all
    also have "\<dots> = 2 powi (?d + 1)"
      by (simp add: power_int_diff power_int_add)
    finally show ?thesis .
  qed
  show ?thesis
  proof (cases "2 powi ?d \<le> x")
    case True
    then have "binade x = ?d" by (simp add: binade_def pq)
    then show ?thesis using True hi by simp
  next
    case False
    then have "binade x = ?d - 1" by (simp add: binade_def pq)
    then show ?thesis using False lo by simp
  qed
qed

lemma binade_unique:
  assumes "2 powi e \<le> x" "x < 2 powi (e + 1)"
  shows "binade x = e"
proof -
  have pos: "0 < x"
    using assms(1) by (smt (verit) zero_less_power_int zero_less_numeral less_le_trans)
  from binade_bounds[OF pos]
  have b: "2 powi binade x \<le> x" "x < 2 powi (binade x + 1)" by auto
  have "\<not> binade x < e"
  proof
    assume "binade x < e"
    then have "binade x + 1 \<le> e" by simp
    then have "(2::rat) powi (binade x + 1) \<le> 2 powi e" by (simp add: power_int_increasing)
    then show False using b(2) assms(1) by simp
  qed
  moreover have "\<not> e < binade x"
  proof
    assume "e < binade x"
    then have "e + 1 \<le> binade x" by simp
    then have "(2::rat) powi (e + 1) \<le> 2 powi binade x" by (simp add: power_int_increasing)
    then show False using b(1) assms(2) by simp
  qed
  ultimately show ?thesis by simp
qed

subsection \<open>Rounding at concrete keys\<close>

lemma to_double_two_53: "to_double 9007199254740992 = Num 9007199254740992"
  by code_simp

lemma to_double_two_53_plus_one: "to_double 9007199254740993 = Num 9007199254740992"
  by code_simp

lemma to_double_two_53_plus_two: "to_double 9007199254740994 = Num 9007199254740994"
  by code_simp

lemma to_double_two_54_plus_two: "to_double 18014398509481986 = Num 18014398509481984"
  by code_simp

lemma to_double_three: "to_double 3 = Num 3"
  by code_simp

lemma to_double_three_halves: "to_double (3 / 2) = Num (3 / 2)"
  by code_simp

lemma to_double_two_63_plus_1000: "to_double 9223372036854776808 = Num 9223372036854775808"
  by code_simp

text \<open>
  Between \<open>2 ^ 53\<close> and \<open>2 ^ 53 + 2\<close> the significand has no bit left: the doubles
  of that binade are the even integers.
\<close>

lemma no_double_inside:
  assumes "9007199254740992 < r" "r < 9007199254740994"
  shows "\<not> representable r"
proof
  assume rep: "representable r"
  have e: "binade r = 53"
    using assms by (intro binade_unique) (simp_all add: power_int_def)
  have pos: "0 < r" using assms(1) by simp
  define m where "m = round_half_even (r / 2)"
  have "to_double r =
          (if 2 powi 1024 \<le> of_int m * (2::rat) then PosInfinity else Num (of_int m * 2))"
    using pos e by (simp add: to_double_def Let_def m_def power_int_def)
  with rep have r: "r = of_int m * 2"
    by (auto simp: representable_def split: if_splits)
  from assms r have "(4503599627370496::rat) < of_int m" "of_int m < (4503599627370497::rat)"
    by simp_all
  then have "4503599627370496 < m" "m < 4503599627370497" by linarith+
  then show False by simp
qed

lemma adjacent_two_53: "adjacent 9007199254740992 9007199254740994"
  unfolding adjacent_def
  using no_double_inside to_double_two_53 to_double_two_53_plus_two
  by (auto simp: representable_def)

subsection \<open>C3: no failure signal\<close>

text \<open>
  C3 as the spec states it: for some pair of adjacent neighbour keys the allocation fails
  with \<open>PrecisionExhausted\<close> rather than returning a key. On the code no call signals
  anything. \<open>2 ^ 53\<close> and \<open>2 ^ 53 + 2\<close> are adjacent, their sum \<open>2 ^ 54 + 2\<close> is a
  tie that rounds to \<open>2 ^ 54\<close>, and the call returns \<open>2 ^ 53\<close>: the key of \<open>before\<close>.
\<close>

theorem allocate_precision_exhausted_counterexample:
  "(\<nexists>b a. allocate b a = Inl PrecisionExhausted)
   \<and> adjacent 9007199254740992 9007199254740994
   \<and> allocate (Some (Num 9007199254740992)) (Some (Num 9007199254740994))
       = Inr (Num 9007199254740992)"
  using adjacent_two_53 to_double_two_54_plus_two to_double_two_53
  by (simp add: allocate_def)

text \<open>
  C3, amended: for every pair of neighbour keys, present or absent, adjacent or not, the
  allocation returns a number and signals nothing; between the adjacent keys \<open>2 ^ 53\<close>
  and \<open>2 ^ 53 + 2\<close> the number it returns is \<open>2 ^ 53\<close>.
\<close>

theorem allocate_never_signals:
  "(\<exists>k. allocate b a = Inr k \<and> k = calculateNewPosition b a)
   \<and> adjacent 9007199254740992 9007199254740994
   \<and> calculateNewPosition (Some (Num 9007199254740992)) (Some (Num 9007199254740994))
       = Num 9007199254740992"
  using adjacent_two_53 to_double_two_54_plus_two to_double_two_53
  by (simp add: allocate_def)

subsection \<open>Rounding to the nearest double\<close>

text \<open>
  \<open>round_half_even\<close> fixes the integers, stays within one of the floor and is at
  least as near as any integer.
\<close>

lemma round_half_even_of_int: "round_half_even (of_int n) = n"
  by (simp add: round_half_even_def)

lemma round_half_even_floor: "\<lfloor>x\<rfloor> \<le> round_half_even x"
  by (simp add: round_half_even_def Let_def)

lemma round_half_even_ceiling: "round_half_even x \<le> \<lfloor>x\<rfloor> + 1"
  by (simp add: round_half_even_def Let_def)

lemma round_half_even_nearest:
  "\<bar>of_int (round_half_even x) - x\<bar> \<le> \<bar>of_int n - x\<bar>"
proof -
  define f where "f = \<lfloor>x\<rfloor>"
  define r where "r = x - of_int f"
  have r: "0 \<le> r" "r < 1" unfolding r_def f_def by linarith+
  have x: "x = of_int f + r" by (simp add: r_def)
  consider "n \<le> f" | "f + 1 \<le> n" by linarith
  then have far: "\<bar>of_int n - x\<bar> \<ge> min r (1 - r)"
  proof cases
    case 1
    then have "(of_int n :: rat) \<le> of_int f" by simp
    with x r show ?thesis by linarith
  next
    case 2
    then have "(of_int f :: rat) + 1 \<le> of_int n" by (metis of_int_1 of_int_add of_int_le_iff)
    with x r show ?thesis by linarith
  qed
  have "\<bar>of_int (round_half_even x) - x\<bar> = min r (1 - r)"
    unfolding round_half_even_def Let_def f_def[symmetric] r_def[symmetric]
    using x r by (auto simp: min_def)
  with far show ?thesis by simp
qed

text \<open>
The binade and the scaled significand of a positive rational.
\<close>

lemma quantum_pos: "0 < quantum x"
  by (simp add: quantum_def)

lemma binade_less:
  assumes "0 < x" "x < 2 powi k"
  shows "binade x < k"
proof (rule ccontr)
  assume "\<not> binade x < k"
  then have "(2::rat) powi k \<le> 2 powi binade x" by (simp add: power_int_increasing)
  with binade_bounds[OF assms(1)] assms(2) show False by simp
qed

lemma binade_ge:
  assumes "2 powi k \<le> x"
  shows "k \<le> binade x"
proof (rule ccontr)
  have pos: "0 < x"
    using assms by (smt (verit) zero_less_power_int zero_less_numeral less_le_trans)
  assume "\<not> k \<le> binade x"
  then have "binade x + 1 \<le> k" by simp
  then have "(2::rat) powi (binade x + 1) \<le> 2 powi k" by (simp add: power_int_increasing)
  with binade_bounds[OF pos] assms show False by simp
qed

lemma two_powi_add: "(2::rat) powi a * 2 powi b = 2 powi (a + b)"
  by (simp add: power_int_add)

lemma two_powi_diff: "(2::rat) powi a / 2 powi b = 2 powi (a - b)"
  by (simp add: power_int_diff)

lemma two_powi_nat: "0 \<le> j \<Longrightarrow> (2::rat) powi j = of_int (2 ^ nat j)"
  by (simp add: power_int_def)

lemma scaled_less:
  assumes "0 < x"
  shows "x / quantum x < 2 powi 53"
proof -
  define E where "E = max (binade x) (- 1022)"
  have q: "quantum x = 2 powi (E - 52)" by (simp add: quantum_def E_def)
  have e: "53 + (E - 52) = E + 1" by simp
  have "x < 2 powi (binade x + 1)" using binade_bounds[OF assms] by simp
  also have "\<dots> \<le> 2 powi (E + 1)" by (simp add: power_int_increasing E_def)
  also have "\<dots> = 2 powi 53 * quantum x"
    unfolding q two_powi_add e ..
  finally show ?thesis using quantum_pos[of x] by (simp only: pos_divide_less_eq)
qed

lemma scaled_ge:
  assumes "0 < x" "- 1022 \<le> binade x"
  shows "2 powi 52 \<le> x / quantum x"
proof -
  have q: "quantum x = 2 powi (binade x - 52)" using assms(2) by (simp add: quantum_def max_def)
  have e: "52 + (binade x - 52) = binade x" by simp
  have "2 powi 52 * quantum x = 2 powi binade x"
    unfolding q two_powi_add e ..
  also have "\<dots> \<le> x" using binade_bounds[OF assms(1)] by simp
  finally show ?thesis using quantum_pos[of x] by (simp only: pos_le_divide_eq)
qed

text \<open>
  A positive multiple \<open>m * 2 powi k\<close> of a power of two from \<open>2 powi - 1074\<close> on, with
  fewer than 54 bits, is left alone by the rounding.
\<close>

lemma grid_fixed:
  assumes "0 < y" "y = of_int m * 2 powi k" "- 1074 \<le> k" "y < 2 powi (k + 53)"
  shows "nearest y = y"
proof -
  define E where "E = max (binade y) (- 1022)"
  define q :: rat where "q = 2 powi (E - 52)"
  have "binade y < k + 53" using assms(1,4) by (rule binade_less)
  with assms(3) have j: "0 \<le> k + 52 - E" by (simp add: E_def)
  have q: "quantum y = q" by (simp add: quantum_def E_def q_def)
  have qpos: "0 < q" by (simp add: q_def)
  have e: "k - (E - 52) = k + 52 - E" by simp
  have "2 powi k / q = 2 powi (k + 52 - E)"
    unfolding q_def two_powi_diff e ..
  also have "\<dots> = of_int (2 ^ nat (k + 52 - E))" using j by (rule two_powi_nat)
  finally have "of_int m * (2 powi k / q) = of_int (m * 2 ^ nat (k + 52 - E))" by simp
  then have scaled: "y / q = of_int (m * 2 ^ nat (k + 52 - E))"
    using assms(2) by simp
  have "nearest y = of_int (round_half_even (y / q)) * q"
    by (simp add: nearest_def q)
  also have "\<dots> = (y / q) * q"
    unfolding scaled round_half_even_of_int ..
  also have "\<dots> = y" using qpos by simp
  finally show ?thesis .
qed

lemma nearest_nonneg:
  assumes "0 < x"
  shows "0 \<le> nearest x"
proof -
  have "0 \<le> x / quantum x" using assms quantum_pos[of x] by simp
  then have "0 \<le> \<lfloor>x / quantum x\<rfloor>" by simp
  with round_half_even_floor[of "x / quantum x"] have "0 \<le> round_half_even (x / quantum x)"
    by linarith
  then show ?thesis using quantum_pos[of x] by (simp add: nearest_def)
qed

lemma significand_le:
  assumes "0 < x"
  shows "round_half_even (x / quantum x) \<le> 2 ^ 53"
proof -
  have "x / quantum x < of_int (2 ^ 53)"
    using scaled_less[OF assms] two_powi_nat[of 53] by simp
  then have "\<lfloor>x / quantum x\<rfloor> < 2 ^ 53" by (simp only: floor_less_iff)
  with round_half_even_ceiling[of "x / quantum x"] show ?thesis by linarith
qed

lemma significand_ge:
  assumes "0 < x" "- 1022 \<le> binade x"
  shows "2 ^ 52 \<le> round_half_even (x / quantum x)"
proof -
  have "of_int (2 ^ 52) \<le> x / quantum x"
    using scaled_ge[OF assms] two_powi_nat[of 52] by simp
  then have "2 ^ 52 \<le> \<lfloor>x / quantum x\<rfloor>" by (simp only: le_floor_iff)
  with round_half_even_floor[of "x / quantum x"] show ?thesis by linarith
qed

lemma nearest_lower:
  assumes "0 < x" "- 1022 \<le> binade x"
  shows "2 powi binade x \<le> nearest x"
proof -
  have q: "quantum x = 2 powi (binade x - 52)" using assms(2) by (simp add: quantum_def max_def)
  have e: "52 + (binade x - 52) = binade x" by simp
  have "2 powi binade x = 2 powi 52 * quantum x"
    unfolding q two_powi_add e ..
  also have "\<dots> = of_int (2 ^ 52) * quantum x" using two_powi_nat[of 52] by simp
  also have "\<dots> \<le> of_int (round_half_even (x / quantum x)) * quantum x"
    using significand_ge[OF assms] quantum_pos[of x]
    by (intro mult_right_mono) (simp_all only: of_int_le_iff less_imp_le)
  finally show ?thesis by (simp only: nearest_def)
qed

lemma nearest_of_nearest:
  assumes "0 < x" "0 < nearest x"
  shows "nearest (nearest x) = nearest x"
proof -
  define E where "E = max (binade x) (- 1022)"
  define m where "m = round_half_even (x / quantum x)"
  have q: "quantum x = 2 powi (E - 52)" by (simp add: quantum_def E_def)
  have y: "nearest x = of_int m * 2 powi (E - 52)" by (simp add: nearest_def m_def q)
  have k: "- 1074 \<le> E - 52" by (simp add: E_def)
  have m: "m \<le> 2 ^ 53" unfolding m_def using assms(1) by (rule significand_le)
  show ?thesis
  proof (cases "m = 2 ^ 53")
    case False
    with m have "m < 2 ^ 53" by simp
    then have "(of_int m :: rat) < of_int (2 ^ 53)" by (simp only: of_int_less_iff)
    then have "(of_int m :: rat) < 2 powi 53" using two_powi_nat[of 53] by simp
    then have "of_int m * 2 powi (E - 52) < 2 powi 53 * (2::rat) powi (E - 52)"
      by (intro mult_strict_right_mono) simp_all
    also have "\<dots> = 2 powi (E - 52 + 53)"
      unfolding two_powi_add by (simp add: add.commute)
    finally have "nearest x < 2 powi (E - 52 + 53)" by (simp only: y)
    from grid_fixed[OF assms(2) y k this] show ?thesis .
  next
    case True
    then have "(of_int m :: rat) = 2 powi 53" using two_powi_nat[of 53] by simp
    then have "nearest x = 2 powi 53 * 2 powi (E - 52)" by (simp only: y)
    then have top: "nearest x = 2 powi (E + 1)"
      unfolding two_powi_add by (simp add: add.commute)
    then have y': "nearest x = of_int 1 * 2 powi (E + 1)" by simp
    have k': "- 1074 \<le> E + 1" using k by simp
    have "(2::rat) powi (E + 1) < 2 powi (E + 1 + 53)"
      by (intro power_int_strict_increasing) simp_all
    then have "nearest x < 2 powi (E + 1 + 53)" by (simp only: top)
    from grid_fixed[OF assms(2) y' k' this] show ?thesis .
  qed
qed

text \<open>
The rounding in terms of \<open>nearest\<close>, and the representable rationals.
\<close>

lemma to_double_pos:
  "0 < x \<Longrightarrow>
     to_double x = (if 2 powi 1024 \<le> nearest x then PosInfinity else Num (nearest x))"
  by (simp add: to_double_def Let_def nearest_def quantum_def)

lemma to_double_neg:
  "x < 0 \<Longrightarrow>
     to_double x = (if 2 powi 1024 \<le> nearest (- x) then NegInfinity else Num (- nearest (- x)))"
  by (simp add: to_double_def Let_def nearest_def quantum_def)

lemma representable_zero: "representable 0"
  by (simp add: representable_def to_double_def)

lemma representable_pos_iff:
  "0 < x \<Longrightarrow> representable x \<longleftrightarrow> nearest x = x \<and> x < 2 powi 1024"
  by (auto simp: representable_def to_double_pos)

lemma representable_neg_iff:
  "x < 0 \<Longrightarrow> representable x \<longleftrightarrow> nearest (- x) = - x \<and> - x < 2 powi 1024"
  by (auto simp: representable_def to_double_neg)

lemma representable_minus: "representable (- x) \<longleftrightarrow> representable x"
proof -
  consider "x = 0" | "0 < x" | "x < 0" by linarith
  then show ?thesis
  proof cases
    case 1
    then show ?thesis by simp
  next
    case 2
    then have "- x < 0" by simp
    from representable_neg_iff[OF this] representable_pos_iff[OF 2] show ?thesis by simp
  next
    case 3
    then have "0 < - x" by simp
    from representable_pos_iff[OF this] representable_neg_iff[OF 3] show ?thesis by simp
  qed
qed

lemma representable_on_grid:
  assumes "representable c" "0 < c" "k \<le> max (binade c) (- 1022) - 52"
  shows "\<exists>n. c = of_int n * 2 powi k"
proof -
  define E where "E = max (binade c) (- 1022)"
  define m where "m = round_half_even (c / quantum c)"
  have q: "quantum c = 2 powi (E - 52)" by (simp add: quantum_def E_def)
  from assms(1,2) have "nearest c = c" by (simp add: representable_pos_iff)
  then have c: "c = of_int m * 2 powi (E - 52)" by (simp add: nearest_def m_def q)
  have j: "0 \<le> E - 52 - k" using assms(3) by (simp add: E_def)
  have e: "E - 52 - k + k = E - 52" by simp
  have "(2::rat) powi (E - 52) = 2 powi (E - 52 - k) * 2 powi k"
    unfolding two_powi_add e ..
  also have "\<dots> = of_int (2 ^ nat (E - 52 - k)) * 2 powi k"
    using two_powi_nat[OF j] by simp
  finally have "c = of_int (m * 2 ^ nat (E - 52 - k)) * 2 powi k"
    using c by simp
  then show ?thesis ..
qed

lemma representable_grid:
  assumes "representable c"
  shows "\<exists>n. c = of_int n * 2 powi (- 1074)"
proof -
  consider "c = 0" | "0 < c" | "c < 0" by linarith
  then show ?thesis
  proof cases
    case 1
    then have "c = of_int 0 * 2 powi (- 1074)" by (simp only: of_int_0 mult_zero_left)
    then show ?thesis ..
  next
    case 2
    have k: "- 1074 \<le> max (binade c) (- 1022) - 52" by simp
    from representable_on_grid[OF assms 2 k] show ?thesis .
  next
    case 3
    then have pos: "0 < - c" by simp
    from assms have rep: "representable (- c)" by (simp add: representable_minus)
    have k: "- 1074 \<le> max (binade (- c)) (- 1022) - 52" by simp
    from representable_on_grid[OF rep pos k]
    obtain n where n: "- c = of_int n * 2 powi (- 1074)" by blast
    have "c = - (- c)" by simp
    also have "\<dots> = of_int (- n) * 2 powi (- 1074)"
      by (simp only: n of_int_minus mult_minus_left)
    finally show ?thesis ..
  qed
qed

text \<open>
No double is nearer to a positive rational than the one it is rounded to.
\<close>

lemma abs_scaled:
  fixes a x q :: rat
  assumes "0 < q"
  shows "\<bar>a - x / q\<bar> * q = \<bar>a * q - x\<bar>"
proof -
  have "(a - x / q) * q = a * q - x" using assms by (simp add: left_diff_distrib)
  then have "\<bar>a * q - x\<bar> = \<bar>a - x / q\<bar> * \<bar>q\<bar>" by (simp only: abs_mult[symmetric])
  with assms show ?thesis by simp
qed

lemma nearest_grid:
  "\<bar>nearest x - x\<bar> \<le> \<bar>of_int n * quantum x - x\<bar>"
proof -
  define q where "q = quantum x"
  have qpos: "0 < q" unfolding q_def by (rule quantum_pos)
  have "\<bar>of_int (round_half_even (x / q)) - x / q\<bar> * q \<le> \<bar>of_int n - x / q\<bar> * q"
    using round_half_even_nearest[of "x / q" n] qpos by (intro mult_right_mono) simp_all
  then show ?thesis
    unfolding abs_scaled[OF qpos] by (simp only: nearest_def q_def)
qed

lemma nearest_is_nearest:
  assumes "0 < x" "representable c"
  shows "\<bar>nearest x - x\<bar> \<le> \<bar>c - x\<bar>"
proof (cases "0 < c")
  case False
  from nearest_grid[of x 0] have "\<bar>nearest x - x\<bar> \<le> x" using assms(1) by simp
  with False show ?thesis by linarith
next
  case True
  define E where "E = max (binade x) (- 1022)"
  have q: "quantum x = 2 powi (E - 52)" by (simp add: quantum_def E_def)
  show ?thesis
  proof (cases "E \<le> max (binade c) (- 1022)")
    case True
    then have "E - 52 \<le> max (binade c) (- 1022) - 52" by simp
    from representable_on_grid[OF assms(2) \<open>0 < c\<close> this]
    obtain n where "c = of_int n * quantum x" unfolding q by auto
    with nearest_grid[of x n] show ?thesis by simp
  next
    case False
    then have lt: "max (binade c) (- 1022) < E" by linarith
    then have normal: "- 1022 \<le> binade x" and E: "E = binade x"
      by (simp_all add: E_def max_def split: if_splits)
    have e: "52 + (E - 52) = E" by simp
    have g: "2 powi E = of_int (2 ^ 52) * quantum x"
      unfolding q using two_powi_add[of 52 "E - 52"] two_powi_nat[of 52] by (simp add: e)
    have "c < 2 powi (binade c + 1)" using binade_bounds[OF \<open>0 < c\<close>] by simp
    also have "\<dots> \<le> 2 powi E" using lt by (intro power_int_increasing) simp_all
    finally have cg: "c < 2 powi E" .
    have gx: "2 powi E \<le> x" using binade_bounds[OF assms(1)] by (simp add: E)
    from nearest_grid[of x "2 ^ 52"] have "\<bar>nearest x - x\<bar> \<le> \<bar>2 powi E - x\<bar>"
      by (simp only: g)
    with cg gx show ?thesis by linarith
  qed
qed

text \<open>
  Halving commutes with the rounding above the subnormal range, and below
  \<open>2 powi - 1021\<close> a sum of two doubles is exact.
\<close>

lemma binade_half:
  assumes "0 < x"
  shows "binade (x / 2) = binade x - 1"
proof (rule binade_unique)
  have e1: "binade x - 1 + 1 = binade x" by simp
  have h1: "(2::rat) powi (binade x - 1) * 2 powi 1 = 2 powi binade x"
    unfolding two_powi_add e1 ..
  have h2: "(2::rat) powi (binade x - 1 + 1) * 2 powi 1 = 2 powi (binade x + 1)"
    unfolding two_powi_add e1 ..
  from binade_bounds[OF assms] h1 show "2 powi (binade x - 1) \<le> x / 2" by simp
  from binade_bounds[OF assms] h2 show "x / 2 < 2 powi (binade x - 1 + 1)" by simp
qed

lemma nearest_half:
  assumes "0 < x" "- 1021 \<le> binade x"
  shows "nearest (x / 2) = nearest x / 2"
proof -
  have mx0: "max (binade x) (- 1022) = binade x" using assms(2) by linarith
  have q: "quantum x = 2 powi (binade x - 52)" unfolding quantum_def mx0 ..
  have mx: "max (binade x - 1) (- 1022) = binade x - 1" using assms(2) by linarith
  have "quantum (x / 2) = 2 powi (binade x - 1 - 52)"
    unfolding quantum_def binade_half[OF assms(1)] mx ..
  moreover have e: "binade x - 1 - 52 + 1 = binade x - 52" by simp
  have "(2::rat) powi (binade x - 1 - 52) * 2 powi 1 = 2 powi (binade x - 52)"
    unfolding two_powi_add e ..
  ultimately have q2: "quantum (x / 2) = quantum x / 2" using q by simp
  have "x / 2 / (quantum x / 2) = x / quantum x" by simp
  then show ?thesis by (simp add: nearest_def q2)
qed

lemma small_sum_exact:
  assumes "representable b" "representable a" "0 < b + a" "b + a < 2 powi (- 1021)"
  shows "nearest (b + a) = b + a"
proof -
  from representable_grid[OF assms(1)] obtain m where m: "b = of_int m * 2 powi (- 1074)" ..
  from representable_grid[OF assms(2)] obtain n where n: "a = of_int n * 2 powi (- 1074)" ..
  have s: "b + a = of_int (m + n) * 2 powi (- 1074)"
    by (simp only: m n of_int_add distrib_right)
  have k: "- 1074 \<le> (- 1074 :: int)" by simp
  have e: "(- 1074 :: int) + 53 = - 1021" by simp
  from assms(4) have "b + a < 2 powi (- 1074 + 53)" by (simp only: e)
  from grid_fixed[OF assms(3) s k this] show ?thesis .
qed

text \<open>
The largest double, and rounding within its range.
\<close>

lemma max_double_grid: "max_double = of_int (2 ^ 53 - 1) * 2 powi 971"
proof -
  have e: "(53::int) + 971 = 1024" by simp
  have "(2::rat) powi 1024 = 2 powi 53 * 2 powi 971"
    unfolding two_powi_add e ..
  also have "\<dots> = of_int (2 ^ 53) * 2 powi 971" using two_powi_nat[of 53] by simp
  finally have "max_double = of_int (2 ^ 53) * 2 powi 971 - 2 powi 971"
    by (simp only: max_double_def)
  also have "\<dots> = (of_int (2 ^ 53) - 1) * 2 powi 971" by (simp only: left_diff_distrib mult_1)
  also have "of_int (2 ^ 53) - (1::rat) = of_int (2 ^ 53 - 1)" by simp
  finally show ?thesis .
qed

lemma max_double_less: "max_double < 2 powi 1024"
  unfolding max_double_def by (simp only: diff_less_eq less_add_same_cancel1 zero_less_power_int zero_less_numeral)

lemma max_double_pos: "0 < max_double"
proof -
  have "(2::rat) powi 971 < 2 powi 1024" by (intro power_int_strict_increasing) simp_all
  then show ?thesis by (simp only: max_double_def diff_gt_0_iff_gt)
qed

lemma representable_max_double: "representable max_double"
proof -
  have k: "- 1074 \<le> (971::int)" by simp
  have e: "(971::int) + 53 = 1024" by simp
  from max_double_less have "max_double < 2 powi (971 + 53)" by (simp only: e)
  from grid_fixed[OF max_double_pos max_double_grid k this] max_double_less max_double_pos
  show ?thesis by (simp only: representable_pos_iff simp_thms)
qed

lemma nearest_le_max_double:
  assumes "0 < x" "x \<le> max_double"
  shows "nearest x \<le> max_double"
  using nearest_is_nearest[OF assms(1) representable_max_double] assms(2) by linarith

lemma to_double_in_range:
  assumes "0 < x" "x \<le> max_double"
  shows "to_double x = Num (nearest x)"
  using nearest_le_max_double[OF assms] max_double_less
  by (simp add: to_double_pos[OF assms(1)])

text \<open>
  The two roundings of \<^verbatim>\<open>(beforePosition + afterPosition) / 2\<close> amount to one rounding of
  the mean: above the subnormal range the halving is exact, within it the sum is.
\<close>

lemma mean_rounded_once:
  assumes "representable b" "representable a" "0 < b + a" "b + a \<le> max_double"
  shows "calculateNewPosition (Some (Num b)) (Some (Num a)) = Num (nearest ((b + a) / 2))"
proof -
  define s where "s = b + a"
  define S where "S = nearest s"
  have s: "0 < s" "s \<le> max_double" using assms(3,4) by (simp_all add: s_def)
  have sum: "js_add (Num b) (Num a) = Num S"
    using to_double_in_range[OF s] by (simp add: s_def S_def)
  have half: "0 < s / 2" "s / 2 \<le> max_double" using s max_double_pos by simp_all
  have Spos_half: "0 < S \<and> nearest (S / 2) = nearest (s / 2)"
  proof (cases "- 1021 \<le> binade s")
    case True
    then have normal: "- 1022 \<le> binade s" by simp
    from nearest_lower[OF s(1) normal] have lo: "2 powi binade s \<le> S" by (simp only: S_def)
    then have Spos: "0 < S"
      by (smt (verit) zero_less_power_int zero_less_numeral less_le_trans)
    from binade_ge[OF lo] True have bS: "- 1021 \<le> binade S" by simp
    have "nearest S = S" unfolding S_def using s(1) Spos[unfolded S_def] by (rule nearest_of_nearest)
    with nearest_half[OF Spos bS] have "nearest (S / 2) = S / 2" by simp
    also have "\<dots> = nearest (s / 2)" using nearest_half[OF s(1) True] by (simp only: S_def)
    finally show ?thesis using Spos by simp
  next
    case False
    then have "binade s + 1 \<le> - 1021" by simp
    then have "(2::rat) powi (binade s + 1) \<le> 2 powi (- 1021)" by (rule power_int_increasing) simp
    with binade_bounds[OF s(1)] have "s < 2 powi (- 1021)" by simp
    with small_sum_exact[OF assms(1,2)] s(1) have "S = s" by (simp only: S_def s_def)
    with s(1) show ?thesis by simp
  qed
  then have Spos: "0 < S / 2" and same: "nearest (S / 2) = nearest (s / 2)" by simp_all
  from nearest_le_max_double[OF half] max_double_less same
  have "nearest (S / 2) < 2 powi 1024" by simp
  with to_double_pos[OF Spos] same have "to_double (S / 2) = Num (nearest (s / 2))" by simp
  with sum show ?thesis by (simp add: s_def)
qed

lemma to_double_minus:
  "to_double (- x) = (case to_double x of Num r \<Rightarrow> Num (- r) | PosInfinity \<Rightarrow> NegInfinity
                      | NegInfinity \<Rightarrow> PosInfinity | NaN \<Rightarrow> NaN)"
proof -
  consider "x = 0" | "0 < x" | "x < 0" by linarith
  then show ?thesis
  proof cases
    case 1
    then show ?thesis by (simp add: to_double_def)
  next
    case 2
    then have "- x < 0" by simp
    from to_double_neg[OF this] to_double_pos[OF 2] show ?thesis by simp
  next
    case 3
    then have "0 < - x" by simp
    from to_double_pos[OF this] to_double_neg[OF 3] show ?thesis by simp
  qed
qed

lemma calculateNewPosition_minus:
  assumes "calculateNewPosition (Some (Num b)) (Some (Num a)) = Num r"
  shows "calculateNewPosition (Some (Num (- a))) (Some (Num (- b))) = Num (- r)"
proof (cases "to_double (b + a)")
  case (Num S)
  with assms have half: "to_double (S / 2) = Num r" by simp
  have e: "- a + - b = - (b + a)" by simp
  have "to_double (- (b + a)) = Num (- S)"
    unfolding to_double_minus Num by simp
  then have "to_double (- a + - b) = Num (- S)" by (simp only: e)
  moreover have "to_double (- (S / 2)) = Num (- r)"
    unfolding to_double_minus half by simp
  then have "to_double (- S / 2) = Num (- r)" by simp
  ultimately show ?thesis by simp
next
  case PosInfinity
  with assms show ?thesis by simp
next
  case NegInfinity
  with assms show ?thesis by simp
next
  case NaN
  with assms show ?thesis by simp
qed

lemma mean_rounding_pos:
  assumes "representable b" "representable a" "0 < b + a" "b + a \<le> max_double"
  shows "\<exists>r. calculateNewPosition (Some (Num b)) (Some (Num a)) = Num r
             \<and> representable r
             \<and> (\<forall>c. representable c \<longrightarrow> \<bar>r - (b + a) / 2\<bar> \<le> \<bar>c - (b + a) / 2\<bar>)"
proof -
  define m where "m = (b + a) / 2"
  have m: "0 < m" "m \<le> max_double" using assms(3,4) max_double_pos by (simp_all add: m_def)
  have r: "calculateNewPosition (Some (Num b)) (Some (Num a)) = Num (nearest m)"
    unfolding m_def using assms by (rule mean_rounded_once)
  have rep: "representable (nearest m)"
  proof (cases "nearest m = 0")
    case True
    then show ?thesis by (simp add: representable_zero)
  next
    case False
    with nearest_nonneg[OF m(1)] have pos: "0 < nearest m" by simp
    from nearest_le_max_double[OF m] max_double_less have "nearest m < 2 powi 1024" by simp
    with nearest_of_nearest[OF m(1) pos] show ?thesis
      by (simp only: representable_pos_iff[OF pos] simp_thms)
  qed
  have "\<forall>c. representable c \<longrightarrow> \<bar>nearest m - m\<bar> \<le> \<bar>c - m\<bar>"
    using nearest_is_nearest[OF m(1)] by blast
  with r rep show ?thesis unfolding m_def by blast
qed

lemma mean_rounding:
  assumes "representable b" "representable a" "\<bar>b + a\<bar> \<le> max_double"
  shows "\<exists>r. calculateNewPosition (Some (Num b)) (Some (Num a)) = Num r
             \<and> representable r
             \<and> (\<forall>c. representable c \<longrightarrow> \<bar>r - (b + a) / 2\<bar> \<le> \<bar>c - (b + a) / 2\<bar>)"
proof -
  consider "b + a = 0" | "0 < b + a" | "b + a < 0" by linarith
  then show ?thesis
  proof cases
    case 1
    then have "calculateNewPosition (Some (Num b)) (Some (Num a)) = Num 0"
      by (simp add: to_double_def)
    with 1 representable_zero show ?thesis by auto
  next
    case 2
    with assms(3) have "b + a \<le> max_double" by simp
    from mean_rounding_pos[OF assms(1,2) 2 this] show ?thesis .
  next
    case 3
    then have pos: "0 < - a + - b" by simp
    from 3 assms(3) have le: "- a + - b \<le> max_double" by simp
    have reps: "representable (- a)" "representable (- b)"
      using assms(1,2) by (simp_all add: representable_minus)
    from mean_rounding_pos[OF reps pos le] obtain r where
      r: "calculateNewPosition (Some (Num (- a))) (Some (Num (- b))) = Num r"
      and rep: "representable r"
      and near: "\<And>c. representable c \<Longrightarrow> \<bar>r - (- a + - b) / 2\<bar> \<le> \<bar>c - (- a + - b) / 2\<bar>"
      by blast
    from calculateNewPosition_minus[OF r]
    have "calculateNewPosition (Some (Num b)) (Some (Num a)) = Num (- r)" by simp
    moreover from rep have "representable (- r)" by (simp add: representable_minus)
    moreover have "\<bar>- r - (b + a) / 2\<bar> \<le> \<bar>c - (b + a) / 2\<bar>" if "representable c" for c
    proof -
      from that have "representable (- c)" by (simp add: representable_minus)
      from near[OF this] have "\<bar>r - (- a + - b) / 2\<bar> \<le> \<bar>- c - (- a + - b) / 2\<bar>" .
      moreover have "r - (- a + - b) / 2 = - (- r - (b + a) / 2)" by (simp add: field_simps)
      moreover have "- c - (- a + - b) / 2 = - (c - (b + a) / 2)" by (simp add: field_simps)
      ultimately show ?thesis by (simp only: abs_minus_cancel)
    qed
    ultimately show ?thesis by blast
  qed
qed

lemma mean_between:
  assumes "representable b" "representable a" "b < a" "\<bar>b + a\<bar> \<le> max_double"
  shows "\<exists>r. calculateNewPosition (Some (Num b)) (Some (Num a)) = Num r
             \<and> representable r
             \<and> (\<forall>c. representable c \<longrightarrow> \<bar>r - (b + a) / 2\<bar> \<le> \<bar>c - (b + a) / 2\<bar>)
             \<and> (representable ((b + a) / 2) \<longrightarrow> r = (b + a) / 2)
             \<and> b \<le> r \<and> r \<le> a
             \<and> (\<not> adjacent b a \<longrightarrow> b < r \<and> r < a)"
proof -
  define m where "m = (b + a) / 2"
  from mean_rounding[OF assms(1,2,4)] obtain r where
    r: "calculateNewPosition (Some (Num b)) (Some (Num a)) = Num r"
    and rep: "representable r"
    and near: "\<And>c. representable c \<Longrightarrow> \<bar>r - m\<bar> \<le> \<bar>c - m\<bar>"
    unfolding m_def by blast
  have m: "b < m" "m < a" "m - b = a - m" using assms(3) by (simp_all add: m_def field_simps)
  have exact: "r = m" if "representable m"
    using near[OF that] by simp
  from near[OF assms(1)] near[OF assms(2)] m have bounds: "b \<le> r" "r \<le> a" by linarith+
  have strict: "b < r \<and> r < a" if "\<not> adjacent b a"
  proof -
    from that assms(1,2,3) obtain c where c: "b < c" "c < a" "representable c"
      by (auto simp: adjacent_def)
    from near[OF c(3)] c(1,2) m bounds show ?thesis by linarith
  qed
  from r rep near exact bounds strict show ?thesis unfolding m_def by blast
qed

text \<open>
Doubles by their significand and exponent, and the rounding at sample keys.
\<close>

lemma representable_dyadic:
  assumes "0 < y" "y = of_int m * 2 powi k" "- 1074 \<le> k" "y < 2 powi (k + 53)"
    and "y < 2 powi 1024"
  shows "representable y"
  using grid_fixed[OF assms(1-4)] assms(5) by (simp only: representable_pos_iff[OF assms(1)] simp_thms)

lemma nearest_at:
  assumes "2 powi e \<le> x" "x < 2 powi (e + 1)" "- 1022 \<le> e"
  shows "nearest x = of_int (round_half_even (x / 2 powi (e - 52))) * 2 powi (e - 52)"
proof -
  have "binade x = e" using assms(1,2) by (rule binade_unique)
  with assms(3) have "quantum x = 2 powi (e - 52)" by (simp add: quantum_def max_def)
  then show ?thesis by (simp only: nearest_def)
qed

lemma representable_one: "representable 1"
  by (rule representable_dyadic[of 1 1 0]) simp_all

lemma representable_two: "representable 2"
  by (rule representable_dyadic[of 2 1 1]) simp_all

lemma representable_three_halves: "representable (3 / 2)"
  by (rule representable_dyadic[of "3 / 2" 3 "- 1"]) simp_all

lemma representable_tenth: "representable (3602879701896397 / 36028797018963968)"
  by (rule representable_dyadic[of _ 3602879701896397 "- 55"]) simp_all

lemma representable_fifth: "representable (3602879701896397 / 18014398509481984)"
  by (rule representable_dyadic[of _ 3602879701896397 "- 54"]) simp_all

lemma tenths:
  "calculateNewPosition (Some (Num (3602879701896397 / 36028797018963968)))
        (Some (Num (3602879701896397 / 18014398509481984)))
      = Num (1351079888211149 / 9007199254740992)"
proof -
  have "(3602879701896397 / 36028797018963968 + 3602879701896397 / 18014398509481984) / 2
        = (10808639105689191 / 72057594037927936 :: rat)" by simp
  moreover have "nearest (10808639105689191 / 72057594037927936)
        = 1351079888211149 / 9007199254740992"
  proof -
    have fl: "\<lfloor>10808639105689191 / 2 :: rat\<rfloor> = 5404319552844595"
      by (rule floor_unique) simp_all
    show ?thesis
      by (subst nearest_at[of "- 3"]) (simp_all add: round_half_even_def Let_def fl)
  qed
  moreover have "(3602879701896397 / 36028797018963968 + 3602879701896397 / 18014398509481984 :: rat)
        \<le> max_double"
    by (simp add: max_double_def)
  ultimately show ?thesis
    using mean_rounded_once[OF representable_tenth representable_fifth] by simp
qed

lemma overflowing_sum:
  "representable (2 ^ 1023) \<and> representable (3 * 2 ^ 1022)
   \<and> calculateNewPosition (Some (Num (2 ^ 1023))) (Some (Num (3 * 2 ^ 1022))) = PosInfinity"
proof -
  have a: "representable (2 ^ 1023)"
    by (rule representable_dyadic[of _ 1 1023]) (simp_all add: power_int_def)
  have b: "representable (3 * 2 ^ 1022)"
    by (rule representable_dyadic[of _ 3 1022]) (simp_all add: power_int_def)
  have "nearest (5 * 2 ^ 1022) = 5 * 2 ^ 1022"
    by (rule grid_fixed[of _ 5 1022]) (simp_all add: power_int_def)
  then have "to_double (2 ^ 1023 + 3 * 2 ^ 1022) = PosInfinity"
    by (simp add: to_double_pos power_int_def)
  with a b show ?thesis by simp
qed

lemma three_le_max_double: "(3::rat) \<le> max_double"
  by (simp add: max_double_def)

subsection \<open>C4: the mean of two neighbours\<close>

text \<open>
  The move route on the list A at 1, B at 2, C at 3: asked to move C to position 2, the
  place between A and B, it commits C at 2 and B at 3.
\<close>

lemma scenario_PATCH:
  "response_status (fst (PATCH demo_env ''C'' scenario_move scenario_board)) = 200
   \<and> map (\<lambda>c. (card_id c, card_position c))
        (card_findMany (snd (PATCH demo_env ''C'' scenario_move scenario_board)) ''clist0001'')
      = [(''A'', 1), (''C'', 2), (''B'', 3)]"
  by (simp add: scenario_board_def scenario_move_def demo_defs handler_defs card_findMany_def)

text \<open>
  C4 as the spec states it: for every pair of keys with \<open>before < after\<close> the result is
  their arithmetic mean and lies strictly between them, and moving C between A at 1 and
  B at 2 gives C a position strictly between 1 and 2. Four inputs say otherwise. At the
  adjacent doubles \<open>2 ^ 53\<close> and \<open>2 ^ 53 + 2\<close> the result is \<open>before\<close>. At the doubles
  nearest to 0.1 and 0.2 the result is not their mean, which is no double. At
  \<open>2 ^ 1023\<close> and \<open>3 * 2 ^ 1022\<close> the sum overflows and the result is infinite. And
  the move route stores C at position 2: positions are integers, the index of a place.
\<close>

theorem calculateNewPosition_mean_counterexample:
  "adjacent 9007199254740992 9007199254740994
   \<and> calculateNewPosition (Some (Num 9007199254740992)) (Some (Num 9007199254740994))
       \<noteq> Num ((9007199254740992 + 9007199254740994) / 2)
   \<and> \<not> js_lt (Num 9007199254740992)
         (calculateNewPosition (Some (Num 9007199254740992)) (Some (Num 9007199254740994)))
   \<and> representable (3602879701896397 / 36028797018963968)
   \<and> representable (3602879701896397 / 18014398509481984)
   \<and> (3602879701896397 / 36028797018963968 :: rat) < 3602879701896397 / 18014398509481984
   \<and> calculateNewPosition (Some (Num (3602879701896397 / 36028797018963968)))
        (Some (Num (3602879701896397 / 18014398509481984)))
       \<noteq> Num ((3602879701896397 / 36028797018963968 + 3602879701896397 / 18014398509481984) / 2)
   \<and> representable (2 ^ 1023) \<and> representable (3 * 2 ^ 1022)
   \<and> (2 ^ 1023 :: rat) < 3 * 2 ^ 1022
   \<and> \<not> js_lt (calculateNewPosition (Some (Num (2 ^ 1023))) (Some (Num (3 * 2 ^ 1022))))
         (Num (3 * 2 ^ 1022))
   \<and> response_status (fst (PATCH demo_env ''C'' scenario_move scenario_board)) = 200
   \<and> map (\<lambda>c. (card_id c, card_position c))
        (card_findMany (snd (PATCH demo_env ''C'' scenario_move scenario_board)) ''clist0001'')
      = [(''A'', 1), (''C'', 2), (''B'', 3)]"
proof -
  have a: "calculateNewPosition (Some (Num 9007199254740992)) (Some (Num 9007199254740994))
           = Num 9007199254740992"
    using to_double_two_54_plus_two to_double_two_53 by simp
  have b: "(3602879701896397 / 36028797018963968 :: rat) < 3602879701896397 / 18014398509481984"
    "(1351079888211149 / 9007199254740992 :: rat)
     \<noteq> (3602879701896397 / 36028797018963968 + 3602879701896397 / 18014398509481984) / 2"
    "(2 ^ 1023 :: rat) < 3 * 2 ^ 1022"
    by simp_all
  from a b adjacent_two_53 tenths representable_tenth representable_fifth overflowing_sum
    scenario_PATCH
  show ?thesis by simp
qed

text \<open>
  C4, amended: for every pair of doubles \<open>before < after\<close> whose sum is within the range
  of the doubles, the allocation with both neighbours present returns a double nearest
  to their arithmetic mean (no double is nearer), which is the mean itself whenever the
  mean is a double; the result lies between the two keys, and strictly between them
  unless they are adjacent. In particular the key allocated between 1 and 2 is 1.5. The
  move route does not allocate such a key: for the list A at 1, B at 2, C at 3, moving
  C to position 2 stores C at 2 and B at 3, and the final sibling order is A, C, B.
\<close>

theorem calculateNewPosition_nearest_mean:
  assumes "representable b" "representable a" "b < a" "\<bar>b + a\<bar> \<le> max_double"
  shows "(\<exists>r. calculateNewPosition (Some (Num b)) (Some (Num a)) = Num r
             \<and> representable r
             \<and> (\<forall>c. representable c \<longrightarrow> \<bar>r - (b + a) / 2\<bar> \<le> \<bar>c - (b + a) / 2\<bar>)
             \<and> (representable ((b + a) / 2) \<longrightarrow> r = (b + a) / 2)
             \<and> b \<le> r \<and> r \<le> a
             \<and> (\<not> adjacent b a \<longrightarrow> js_lt (Num b) (Num r) \<and> js_lt (Num r) (Num a)))
         \<and> calculateNewPosition (Some (Num 1)) (Some (Num 2)) = Num (3 / 2)
         \<and> response_status (fst (PATCH demo_env ''C'' scenario_move scenario_board)) = 200
         \<and> map (\<lambda>c. (card_id c, card_position c))
              (card_findMany (snd (PATCH demo_env ''C'' scenario_move scenario_board)) ''clist0001'')
            = [(''A'', 1), (''C'', 2), (''B'', 3)]"
proof -
  have "calculateNewPosition (Some (Num 1)) (Some (Num 2)) = Num (3 / 2)"
    using to_double_three to_double_three_halves by simp
  with mean_between[OF assms] scenario_PATCH show ?thesis by simp
qed

text \<open>
  The hypotheses of C4 hold at the keys 1 and 2 of the scenario, which are not adjacent:
  the result is 1.5.
\<close>

theorem calculateNewPosition_nearest_mean_witness:
  "representable 1 \<and> representable 2 \<and> (1::rat) < 2 \<and> \<bar>1 + 2\<bar> \<le> max_double
   \<and> representable ((1 + 2) / 2) \<and> \<not> adjacent 1 2
   \<and> calculateNewPosition (Some (Num 1)) (Some (Num 2)) = Num (3 / 2)
   \<and> js_lt (Num 1) (calculateNewPosition (Some (Num 1)) (Some (Num 2)))
   \<and> js_lt (calculateNewPosition (Some (Num 1)) (Some (Num 2))) (Num 2)"
proof -
  note h1 = representable_one and h2 = representable_two
  have h3: "(1::rat) < 2" by simp
  have h4: "\<bar>1 + 2\<bar> \<le> max_double" using three_le_max_double by simp
  have h5: "representable ((1 + 2) / 2)" using representable_three_halves by simp
  have h6: "\<not> adjacent 1 2"
    using h5 by (auto simp: adjacent_def intro!: exI[of _ "3 / 2"])
  from calculateNewPosition_nearest_mean[OF h1 h2 h3 h4] h5 h6
  obtain r where r: "calculateNewPosition (Some (Num 1)) (Some (Num 2)) = Num r"
    and m: "r = (1 + 2) / 2" and lt: "js_lt (Num 1) (Num r)" "js_lt (Num r) (Num 2)"
    by blast
  from r m lt h1 h2 h3 h4 h5 h6 show ?thesis by simp
qed

subsection \<open>C5: the end points\<close>

text \<open>
  The parts of the end point contract that hold: the default key, a head key below a
  positive \<open>after\<close> whose half is exact, a tail key above a \<open>before\<close> whose sum with
  1000 is exact.
\<close>

lemma calculateNewPosition_default: "calculateNewPosition None None = Num 1000"
  by simp

lemma calculateNewPosition_head_exact:
  assumes "0 < a" and "representable (a / 2)"
  shows "calculateNewPosition None (Some (Num a)) = Num (a / 2)
         \<and> js_lt (calculateNewPosition None (Some (Num a))) (Num a)"
  using assms by (simp add: representable_def)

lemma calculateNewPosition_tail_exact:
  assumes "representable (b + 1000)"
  shows "calculateNewPosition (Some (Num b)) None = Num (b + 1000)
         \<and> js_lt (Num b) (calculateNewPosition (Some (Num b)) None)"
  using assms by (simp add: representable_def)

text \<open>
  From \<open>2 ^ 63\<close> on the spacing of the doubles is 2048 and the 1000 of a tail insert is
  rounded away.
\<close>

lemma calculateNewPosition_tail_absorbed:
  "calculateNewPosition (Some (Num 9223372036854775808)) None = Num 9223372036854775808"
  using to_double_two_63_plus_1000 by simp

text \<open>
  C5, at the input the code gets wrong: position allocation with \<open>before\<close> absent returns
  a key strictly less than \<open>after\<close>. The first position the repository hands out is 0
  (\<^verbatim>\<open>reorderItems\<close> of the same file numbers from 0, and so does the card route); asked
  for a key before a first item at 0, the function returns 0 again, which is not before it.
\<close>

theorem calculateNewPosition_head_of_zero:
  "calculateNewPosition None (Some (Num 0)) = Num 0
   \<and> \<not> js_lt (calculateNewPosition None (Some (Num 0))) (Num 0)"
  by (simp add: to_double_def)

subsection \<open>The order invariant as distinct keys\<close>

lemma strict_sorted_sort_key:
  "sorted_wrt (<) (map f (sort_key f xs)) \<longleftrightarrow> distinct (map f xs)"
proof -
  have "mset (map f (sort_key f xs)) = mset (map f xs)" by simp
  then have "distinct (map f (sort_key f xs)) \<longleftrightarrow> distinct (map f xs)"
    by (rule mset_eq_imp_distinct_iff)
  then show ?thesis by (simp add: strict_sorted_iff)
qed

lemma distinct_pairs_by_group:
  "distinct (map (\<lambda>x. (f x, g x)) xs)
   \<longleftrightarrow> (\<forall>l. distinct (map g (filter (\<lambda>x. f x = l) xs)))"
  by (induction xs) (auto simp: image_iff)

lemma filter_no_group: "l \<notin> f ` set xs \<Longrightarrow> filter (\<lambda>x. f x = l) xs = []"
  by (induction xs) auto

lemma distinct_pairs_by_present_group:
  "distinct (map (\<lambda>x. (f x, g x)) xs)
   \<longleftrightarrow> (\<forall>l \<in> f ` set xs. distinct (map g (filter (\<lambda>x. f x = l) xs)))"
proof -
  have "(\<forall>l. distinct (map g (filter (\<lambda>x. f x = l) xs)))
        \<longleftrightarrow> (\<forall>l \<in> f ` set xs. distinct (map g (filter (\<lambda>x. f x = l) xs)))"
  proof (intro iffI allI ballI)
    fix l assume h: "\<forall>l \<in> f ` set xs. distinct (map g (filter (\<lambda>x. f x = l) xs))"
    show "distinct (map g (filter (\<lambda>x. f x = l) xs))"
    proof (cases "l \<in> f ` set xs")
      case True with h show ?thesis by blast
    next
      case False then show ?thesis by (simp add: filter_no_group)
    qed
  qed blast
  then show ?thesis by (simp only: distinct_pairs_by_group)
qed

lemma order_invariant_iff:
  "order_invariant d \<longleftrightarrow> distinct (map position_key (db_cards d))"
  unfolding order_invariant_def card_findMany_def position_key_def
  by (simp add: strict_sorted_sort_key list_all_iff distinct_pairs_by_present_group[of card_listId card_position])

subsection \<open>What the move transaction commits\<close>

lemma run_statement_commit:
  "run_statement env s run d = (None, d') \<Longrightarrow> run d = (None, d')"
  by (simp add: run_statement_def split: if_splits)

lemma and_then_commit:
  "and_then first second d = (None, d') \<Longrightarrow>
     \<exists>d1. first d = (None, d1) \<and> second d1 = (None, d')"
  by (auto simp: and_then_def split: prod.splits option.splits)

lemma card_updateMany_rows:
  "card_updateMany env wh data d = (None, d') \<Longrightarrow>
     d' = d\<lparr>db_cards :=
        map (\<lambda>c. if wh c then (data c)\<lparr>card_updatedAt := env_now env\<rparr> else c) (db_cards d)\<rparr>"
  by (auto simp: card_updateMany_def split: if_splits)

lemma shift_siblings_commit:
  assumes "shift_siblings env src s dst n d = (None, d')"
  shows "d' = d\<lparr>db_cards := map (shifted_row env src s dst n) (db_cards d)\<rparr>"
proof (cases "src = dst")
  case True
  note same = this
  show ?thesis
  proof (cases "s < n")
    case True
    with same assms have
      "card_updateMany env (\<lambda>c. card_listId c = src \<and> s < card_position c \<and> card_position c \<le> n)
         decrement d = (None, d')"
      by (auto simp: shift_siblings_def dest: run_statement_commit)
    from card_updateMany_rows[OF this] have
      d': "d' = d\<lparr>db_cards := map (\<lambda>c. if card_listId c = src \<and> s < card_position c \<and> card_position c \<le> n
              then (decrement c)\<lparr>card_updatedAt := env_now env\<rparr> else c) (db_cards d)\<rparr>" by simp
    have "(\<lambda>c. if card_listId c = src \<and> s < card_position c \<and> card_position c \<le> n
              then (decrement c)\<lparr>card_updatedAt := env_now env\<rparr> else c) = shifted_row env src s dst n"
      using same True by (intro ext) (simp add: shifted_row_def shifted_position_def decrement_def)
    with d' show ?thesis by simp
  next
    case False
    note ge = this
    show ?thesis
    proof (cases "n < s")
      case True
      with same ge assms have
        "card_updateMany env (\<lambda>c. card_listId c = src \<and> n \<le> card_position c \<and> card_position c < s)
           increment d = (None, d')"
        by (auto simp: shift_siblings_def dest: run_statement_commit)
      from card_updateMany_rows[OF this] have
        d': "d' = d\<lparr>db_cards := map (\<lambda>c. if card_listId c = src \<and> n \<le> card_position c \<and> card_position c < s
                then (increment c)\<lparr>card_updatedAt := env_now env\<rparr> else c) (db_cards d)\<rparr>" by simp
      have "(\<lambda>c. if card_listId c = src \<and> n \<le> card_position c \<and> card_position c < s
                then (increment c)\<lparr>card_updatedAt := env_now env\<rparr> else c) = shifted_row env src s dst n"
        using same True by (intro ext) (simp add: shifted_row_def shifted_position_def increment_def)
      with d' show ?thesis by simp
    next
      case False
      with same ge assms have "d' = d" by (simp add: shift_siblings_def skip_def)
      moreover have "shifted_row env src s dst n = (\<lambda>c. c)"
        using same ge False by (intro ext) (simp add: shifted_row_def shifted_position_def)
      ultimately show ?thesis by simp
    qed
  qed
next
  case False
  with assms have
    "and_then
       (run_statement env ShiftSourceList
          (card_updateMany env (\<lambda>c. card_listId c = src \<and> s < card_position c) decrement))
       (run_statement env ShiftDestinationList
          (card_updateMany env (\<lambda>c. card_listId c = dst \<and> n \<le> card_position c) increment))
       d = (None, d')"
    by (simp add: shift_siblings_def)
  from and_then_commit[OF this] obtain d1 where
    a: "card_updateMany env (\<lambda>c. card_listId c = src \<and> s < card_position c) decrement d = (None, d1)"
    and b: "card_updateMany env (\<lambda>c. card_listId c = dst \<and> n \<le> card_position c) increment d1 = (None, d')"
    by (auto dest: run_statement_commit)
  from card_updateMany_rows[OF a] card_updateMany_rows[OF b]
  have d': "d' = d\<lparr>db_cards :=
      map ((\<lambda>c. if card_listId c = dst \<and> n \<le> card_position c
                 then (increment c)\<lparr>card_updatedAt := env_now env\<rparr> else c)
           \<circ> (\<lambda>c. if card_listId c = src \<and> s < card_position c
                 then (decrement c)\<lparr>card_updatedAt := env_now env\<rparr> else c)) (db_cards d)\<rparr>"
    by simp
  have "((\<lambda>c. if card_listId c = dst \<and> n \<le> card_position c
                 then (increment c)\<lparr>card_updatedAt := env_now env\<rparr> else c)
           \<circ> (\<lambda>c. if card_listId c = src \<and> s < card_position c
                 then (decrement c)\<lparr>card_updatedAt := env_now env\<rparr> else c))
        = shifted_row env src s dst n"
    using False
    by (intro ext) (simp add: shifted_row_def shifted_position_def increment_def decrement_def)
  with d' show ?thesis by simp
qed

lemma card_update_commit:
  "card_update env ident listId position d = (None, d') \<Longrightarrow>
     d' = d\<lparr>db_cards :=
            map (\<lambda>c. if card_id c = ident
                      then c\<lparr>card_listId := listId, card_position := position,
                             card_updatedAt := env_now env\<rparr>
                      else c) (db_cards d)\<rparr>"
  by (simp add: card_update_def split: if_splits)

lemma move_transaction_commit:
  assumes "move_transaction env u ident src s dst n d = (None, d')"
  shows "d' = d\<lparr>db_cards := map (moved_row env ident src s dst n) (db_cards d),
                db_activities := db_activities d @ [moved_activity u ident src s dst n]\<rparr>"
proof -
  from and_then_commit[OF assms[unfolded move_transaction_def]] obtain d1 where
    a: "shift_siblings env src s dst n d = (None, d1)"
    and rest: "and_then (run_statement env UpdateCard (card_update env ident dst n))
                 (run_statement env CreateActivity
                    (activity_create (moved_activity u ident src s dst n))) d1 = (None, d')"
    by blast
  from and_then_commit[OF rest] obtain d2 where
    b: "card_update env ident dst n d1 = (None, d2)"
    and c: "activity_create (moved_activity u ident src s dst n) d2 = (None, d')"
    by (auto dest: run_statement_commit)
  have upd: "(\<lambda>c. if card_id c = ident
                 then c\<lparr>card_listId := dst, card_position := n, card_updatedAt := env_now env\<rparr>
                 else c) \<circ> shifted_row env src s dst n
             = moved_row env ident src s dst n"
    by (intro ext) (simp add: moved_row_def shifted_row_def)
  from shift_siblings_commit[OF a] card_update_commit[OF b] c upd
  show ?thesis by (simp add: activity_create_def)
qed

text \<open>
Every run of the handler either leaves the store as it was, with an error status, or
  commits the whole move and answers 200 with the stored card.
\<close>

lemma PATCH_handler_outcome:
  assumes "PATCH_handler env ident body h = (resp, h')"
  shows "(response_status resp \<noteq> 200 \<and> h' = h)
         \<or> (\<exists>userId found.
               env_session env = Some userId \<and> card_findUnique (last h) ident = Some found
               \<and> move_transaction env userId ident (card_listId found) (card_position found)
                    (destinationListId body) (newPosition body) (last h)
                  = (None, committed_move env ident body (last h) userId found)
               \<and> h' = h @ [committed_move env ident body (last h) userId found]
               \<and> (if env_rejects env FindUpdatedCard then resp = internal_error
                   else resp = Response 200
                          (json_opt (card_with_relations (last h')) (card_findUnique (last h') ident))))"
proof (cases "env_rejects env GetSession \<or> env_session env = None \<or> env_rejects env ReadBody
              \<or> moveCardSchema_issues env body \<noteq> [] \<or> env_rejects env FindCard")
  case True
  with assms show ?thesis
    by (auto simp: PATCH_handler_def internal_error_def validation_error_def
             split: option.splits if_splits)
next
  case False
  then obtain userId where u: "env_session env = Some userId" by auto
  note ok = False
  show ?thesis
  proof (cases "card_findUnique (last h) ident")
    case None
    with assms u ok show ?thesis by (auto simp: PATCH_handler_def)
  next
    case (Some found)
    note f = this
    show ?thesis
    proof (cases "list_findUnique (last h) (card_listId found)")
      case None
      with assms u ok f show ?thesis by (auto simp: PATCH_handler_def internal_error_def)
    next
      case (Some lst)
      show ?thesis
      proof (cases "board_members_of (last h) (list_boardId lst) userId = []")
        case True
        with assms u ok f Some show ?thesis by (auto simp: PATCH_handler_def)
      next
        case False
        let ?tx = "move_transaction env userId ident (card_listId found) (card_position found)
                     (destinationListId body) (newPosition body)"
        obtain r d1 where tx: "?tx (last h) = (r, d1)" by (cases "?tx (last h)")
        show ?thesis
        proof (cases r)
          case None
          with tx have d1: "d1 = committed_move env ident body (last h) userId found"
            by (simp add: committed_move_def move_transaction_commit)
          from assms u ok f Some False tx None
          have "h' = h @ [d1]"
            and "if env_rejects env FindUpdatedCard then resp = internal_error
                 else resp = Response 200
                        (json_opt (card_with_relations d1) (card_findUnique d1 ident))"
            by (auto simp: PATCH_handler_def prisma_transaction_def split: if_splits)
          with d1 u f tx None show ?thesis by auto
        next
          case (Some e)
          with assms u ok f \<open>list_findUnique (last h) (card_listId found) = Some lst\<close> False tx
          show ?thesis by (auto simp: PATCH_handler_def prisma_transaction_def internal_error_def)
        qed
      qed
    qed
  qed
qed

lemma PATCH_outcome:
  assumes "PATCH env ident body d = (resp, d')"
  shows "(response_status resp \<noteq> 200 \<and> d' = d)
         \<or> (\<exists>userId found.
               env_session env = Some userId \<and> card_findUnique d ident = Some found
               \<and> d' = committed_move env ident body d userId found
               \<and> (if env_rejects env FindUpdatedCard then resp = internal_error
                   else resp = Response 200
                          (json_opt (card_with_relations d') (card_findUnique d' ident))))"
proof -
  obtain h' where run: "PATCH_handler env ident body [d] = (resp, h')" and d': "d' = last h'"
    using assms by (auto simp: PATCH_def split: prod.splits)
  from PATCH_handler_outcome[OF run] d' show ?thesis by auto
qed


lemma card_findUnique_Some:
  "card_findUnique d ident = Some found \<Longrightarrow> found \<in> set (db_cards d) \<and> card_id found = ident"
  by (auto simp: card_findUnique_def find_Some_iff)



subsection \<open>Shifting keeps the keys apart\<close>

lemma shifted_position_inj:
  assumes "l \<noteq> src \<or> p1 \<noteq> s" "l \<noteq> src \<or> p2 \<noteq> s"
    and "shifted_position src s dst n l p1 = shifted_position src s dst n l p2"
  shows "p1 = p2"
  using assms unfolding shifted_position_def by (auto split: if_splits)

lemma shifted_position_avoids:
  assumes "l \<noteq> src \<or> p \<noteq> s"
  shows "l \<noteq> dst \<or> shifted_position src s dst n l p \<noteq> n"
  using assms unfolding shifted_position_def by (auto split: if_splits)

lemma position_key_moved_row:
  "position_key (moved_row env ident src s dst n c) =
     (if card_id c = ident then (dst, n)
      else (card_listId c, shifted_position src s dst n (card_listId c) (card_position c)))"
  by (simp add: moved_row_def shifted_row_def position_key_def)

lemma key_moved_self:
  "card_id c = ident \<Longrightarrow> position_key (moved_row env ident src s dst n c) = (dst, n)"
  by (simp add: position_key_moved_row)

lemma key_moved_other:
  "card_id c \<noteq> ident \<Longrightarrow>
     position_key (moved_row env ident src s dst n c)
     = (card_listId c, shifted_position src s dst n (card_listId c) (card_position c))"
  by (simp add: position_key_moved_row)

lemma moved_row_keeps_order:
  assumes ids: "distinct (map card_id cs)"
    and keys: "distinct (map position_key cs)"
    and found: "found \<in> set cs" "card_id found = ident"
  shows "distinct (map position_key
           (map (moved_row env ident (card_listId found) (card_position found) dst n) cs))"
proof -
  let ?src = "card_listId found" and ?s = "card_position found"
  let ?F = "moved_row env ident ?src ?s dst n"
  let ?sh = "shifted_position ?src ?s dst n"
  from ids have inj_id: "inj_on card_id (set cs)" and dist: "distinct cs"
    by (simp_all add: distinct_map)
  from keys have inj_key: "inj_on position_key (set cs)" by (simp add: distinct_map)
  have the_one: "c = found" if "c \<in> set cs" "card_id c = ident" for c
    using that found inj_id by (auto dest: inj_onD)
  have other: "card_listId c \<noteq> ?src \<or> card_position c \<noteq> ?s"
    if "c \<in> set cs" "card_id c \<noteq> ident" for c
  proof -
    from that found have "c \<noteq> found" by auto
    with inj_key that(1) found(1) have "position_key c \<noteq> position_key found"
      by (auto dest: inj_onD)
    then show ?thesis by (auto simp: position_key_def)
  qed
  have "inj_on (position_key \<circ> ?F) (set cs)"
  proof (rule inj_onI)
    fix c1 c2
    assume c1: "c1 \<in> set cs" and c2: "c2 \<in> set cs"
      and "(position_key \<circ> ?F) c1 = (position_key \<circ> ?F) c2"
    then have eq: "position_key (?F c1) = position_key (?F c2)" by simp
    show "c1 = c2"
    proof (cases "card_id c1 = ident")
      case True
      note t1 = this
      show ?thesis
      proof (cases "card_id c2 = ident")
        case True
        from the_one[OF c1 t1] the_one[OF c2 True] show ?thesis by simp
      next
        case False
        have "(card_listId c2, ?sh (card_listId c2) (card_position c2)) = (dst, n)"
          using eq[symmetric] unfolding key_moved_self[OF t1] key_moved_other[OF False] .
        then have "card_listId c2 = dst" "?sh (card_listId c2) (card_position c2) = n"
          by blast+
        with shifted_position_avoids[OF other[OF c2 False], of dst n] show ?thesis by blast
      qed
    next
      case False
      note f1 = this
      show ?thesis
      proof (cases "card_id c2 = ident")
        case True
        have "(card_listId c1, ?sh (card_listId c1) (card_position c1)) = (dst, n)"
          using eq unfolding key_moved_self[OF True] key_moved_other[OF f1] .
        then have "card_listId c1 = dst" "?sh (card_listId c1) (card_position c1) = n"
          by blast+
        with shifted_position_avoids[OF other[OF c1 f1], of dst n] show ?thesis by blast
      next
        case False
        have "(card_listId c1, ?sh (card_listId c1) (card_position c1))
              = (card_listId c2, ?sh (card_listId c2) (card_position c2))"
          using eq unfolding key_moved_other[OF f1] key_moved_other[OF False] .
        then have l: "card_listId c1 = card_listId c2"
          and p: "?sh (card_listId c1) (card_position c1) = ?sh (card_listId c2) (card_position c2)"
          by blast+
        from other[OF c2 False] l have o2: "card_listId c1 \<noteq> ?src \<or> card_position c2 \<noteq> ?s"
          by simp
        from p l have p': "?sh (card_listId c1) (card_position c1) = ?sh (card_listId c1) (card_position c2)"
          by simp
        have "card_position c1 = card_position c2"
          by (rule shifted_position_inj[OF other[OF c1 f1] o2 p'])
        with l have "position_key c1 = position_key c2" by (simp add: position_key_def)
        with inj_key c1 c2 show ?thesis by (auto dest: inj_onD)
      qed
    qed
  qed
  with dist show ?thesis by (simp add: distinct_map)
qed

lemma PATCH_keeps_order:
  assumes "distinct (map card_id (db_cards d))" and "order_invariant d"
  shows "order_invariant (snd (PATCH env ident body d))"
proof -
  obtain resp d' where run: "PATCH env ident body d = (resp, d')"
    by (cases "PATCH env ident body d")
  from PATCH_outcome[OF run] consider "d' = d"
    | userId found where "card_findUnique d ident = Some found"
        "d' = committed_move env ident body d userId found"
    by blast
  then show ?thesis
  proof cases
    case 1
    with run assms(2) show ?thesis by simp
  next
    case 2
    from card_findUnique_Some[OF 2(1)] have "found \<in> set (db_cards d)" "card_id found = ident"
      by simp_all
    from moved_row_keeps_order[OF assms(1) assms(2)[unfolded order_invariant_iff] this]
    have "order_invariant d'"
      by (simp add: order_invariant_iff 2(2) committed_move_def)
    with run show ?thesis by simp
  qed
qed

subsection \<open>Creating a card\<close>

lemma POST_cards:
  "db_cards (snd (POST env body d)) = db_cards d
   \<or> db_cards (snd (POST env body d)) =
       db_cards d @ [new_card env body
          (case create_position body of Some p \<Rightarrow> p | None \<Rightarrow> card_count d (create_listId body))]"
  by (auto simp: POST_def POST_handler_def Let_def prisma_call_def prisma_transaction_def
                 run_statement_def card_create_def activity_create_def
           split: option.splits prod.splits if_splits)

lemma dense_count_is_free:
  assumes "dense_positions d l" and "c \<in> set (db_cards d)" and "card_listId c = l"
  shows "card_position c \<noteq> card_count d l"
proof -
  let ?sib = "card_findMany d l"
  have len: "int (length ?sib) = card_count d l"
    by (simp add: card_findMany_def card_count_def)
  from assms(2,3) have "card_position c \<in> set (map card_position ?sib)"
    by (auto simp: card_findMany_def)
  with assms(1) have "card_position c \<in> set (map int [0 ..< length ?sib])"
    by (simp add: dense_positions_def)
  then have "card_position c < int (length ?sib)" by auto
  with len show ?thesis by simp
qed

lemma POST_default_keeps_order:
  assumes "order_invariant d" and "create_position body = None"
    and "dense_positions d (create_listId body)"
  shows "order_invariant (snd (POST env body d))"
proof -
  let ?new = "new_card env body (card_count d (create_listId body))"
  from POST_cards[of env body d] assms(2)
  consider "db_cards (snd (POST env body d)) = db_cards d"
    | "db_cards (snd (POST env body d)) = db_cards d @ [?new]"
    by auto
  then show ?thesis
  proof cases
    case 1
    with assms(1) show ?thesis by (simp add: order_invariant_iff)
  next
    case 2
    have "position_key ?new \<notin> set (map position_key (db_cards d))"
    proof
      assume "position_key ?new \<in> set (map position_key (db_cards d))"
      then obtain c where c: "c \<in> set (db_cards d)" "position_key c = position_key ?new"
        by auto
      then have "card_listId c = create_listId body"
        "card_position c = card_count d (create_listId body)"
        by (simp_all add: position_key_def new_card_def)
      with dense_count_is_free[OF assms(3) c(1)] show False by simp
    qed
    with assms(1) 2 show ?thesis by (simp add: order_invariant_iff)
  qed
qed

subsection \<open>The sample move\<close>

lemma demo_PATCH:
  "PATCH demo_env ''ccard0001'' demo_move demo_board =
     (Response 200
        (card_with_relations demo_board
           ((demo_card ''ccard0001'' ''clist0002'' 0)\<lparr>card_updatedAt := 7\<rparr>)),
      demo_board\<lparr>db_cards :=
          [(demo_card ''ccard0001'' ''clist0002'' 0)\<lparr>card_updatedAt := 7\<rparr>,
           (demo_card ''ccard0002'' ''clist0001'' 0)\<lparr>card_updatedAt := 7\<rparr>,
           (demo_card ''ccard0003'' ''clist0002'' 1)\<lparr>card_updatedAt := 7\<rparr>],
        db_activities :=
          [moved_activity ''user1'' ''ccard0001'' ''clist0001'' 0 ''clist0002'' 0]\<rparr>)"
  by (simp add: demo_defs demo_board_def demo_move_def handler_defs)

lemma demo_PATCH_handler:
  "PATCH_handler demo_env ''ccard0001'' demo_move [demo_board] =
     (Response 200
        (card_with_relations demo_board
           ((demo_card ''ccard0001'' ''clist0002'' 0)\<lparr>card_updatedAt := 7\<rparr>)),
      [demo_board, demo_committed])"
  by (simp add: demo_committed_def demo_defs demo_board_def demo_move_def handler_defs)

lemma demo_PATCH_unread:
  "PATCH_handler (failing_env FindUpdatedCard) ''ccard0001'' demo_move [demo_board] =
     (internal_error, [demo_board, demo_committed])"
  by (simp add: demo_committed_def failing_env_def demo_defs demo_board_def demo_move_def
        handler_defs)

lemma demo_move_fails:
  "move_transaction (failing_env CreateActivity) ''user1'' ''ccard0001''
          ''clist0001'' 0 ''clist0002'' 0 demo_board
   = (Some (Rejected CreateActivity), demo_committed\<lparr>db_activities := []\<rparr>)"
  by (simp add: demo_committed_def failing_env_def demo_board_def demo_defs handler_defs)

subsection \<open>C1: the order invariant\<close>

text \<open>
  What holds: given that no two siblings share a position (and that card ids are unique),
  the move route leaves this so in every list, whatever card, destination and new
  position are requested and whether or not the transaction commits; the create route
  leaves it so when no position is supplied and the positions of the destination list
  are exactly \<open>0, \<dots>, n - 1\<close>. On the sample board both routes commit.
\<close>

lemma order_invariant_kept:
  assumes "distinct (map card_id (db_cards d))" and "order_invariant d"
  shows "order_invariant (snd (PATCH env ident body d))
         \<and> (create_position cbody = None \<and> dense_positions d (create_listId cbody)
              \<longrightarrow> order_invariant (snd (POST env cbody d)))"
  using PATCH_keeps_order[OF assms] POST_default_keeps_order[OF assms(2)] by blast

lemma order_invariant_kept_sample:
  "distinct (map card_id (db_cards demo_board)) \<and> order_invariant demo_board
   \<and> create_position (demo_create None) = None
   \<and> dense_positions demo_board (create_listId (demo_create None))
   \<and> order_invariant (snd (PATCH demo_env ''ccard0001'' demo_move demo_board))
   \<and> order_invariant (snd (POST demo_env (demo_create None) demo_board))
   \<and> snd (PATCH demo_env ''ccard0001'' demo_move demo_board) \<noteq> demo_board
   \<and> snd (POST demo_env (demo_create None) demo_board) \<noteq> demo_board"
proof -
  have h1: "distinct (map card_id (db_cards demo_board))"
    by (simp add: demo_defs demo_board_def)
  have h2: "order_invariant demo_board"
    by (simp add: demo_defs demo_board_def order_invariant_def card_findMany_def)
  have h3: "create_position (demo_create None) = None"
    by (simp add: demo_defs)
  have h4: "dense_positions demo_board (create_listId (demo_create None))"
    by (simp add: demo_defs demo_board_def dense_positions_def card_findMany_def upt_rec)
  have c1: "snd (PATCH demo_env ''ccard0001'' demo_move demo_board) \<noteq> demo_board"
    by (simp add: demo_PATCH) (simp add: demo_defs demo_board_def)
  have c2: "snd (POST demo_env (demo_create None) demo_board) \<noteq> demo_board"
    by (simp add: demo_defs demo_board_def handler_defs)
  from order_invariant_kept[OF h1 h2, of demo_env "''ccard0001''" demo_move "demo_create None"]
    h1 h2 h3 h4 c1 c2
  show ?thesis by simp
qed

text \<open>
  The create route never makes room for the card it inserts. Its default position is
  the count of the list, which is taken as soon as the list is not dense: a list holding
  one card at position 1 has count 1.
\<close>

lemma POST_default_collides:
  "order_invariant (demo_db [demo_card ''ccard0001'' ''clist0001'' 1])
   \<and> response_status
        (fst (POST demo_env (demo_create None) (demo_db [demo_card ''ccard0001'' ''clist0001'' 1])))
      = 201
   \<and> \<not> order_invariant
        (snd (POST demo_env (demo_create None) (demo_db [demo_card ''ccard0001'' ''clist0001'' 1])))"
  by (simp add: demo_defs handler_defs order_invariant_def card_findMany_def)

text \<open>
  C1, at the input the code gets wrong: after a committed create with a position in the
  valid index range of the destination, no two siblings share a position, given that
  this held before. The sample board is dense and has unique card ids; a card created in
  its first list at position 0, a valid request, is stored at position 0 beside the card
  that was there, and no sibling is shifted. The move route, for the same destination
  and position, increments every sibling at or behind the new position first.
\<close>

theorem POST_position_collides:
  "distinct (map card_id (db_cards demo_board)) \<and> order_invariant demo_board
   \<and> dense_positions demo_board ''clist0001''
   \<and> create_listId (demo_create (Some 0)) = ''clist0001''
   \<and> create_position (demo_create (Some 0)) = Some 0
   \<and> createCardSchema_issues demo_env (demo_create (Some 0)) = []
   \<and> 0 \<le> card_count demo_board ''clist0001''
   \<and> response_status (fst (POST demo_env (demo_create (Some 0)) demo_board)) = 201
   \<and> map (\<lambda>c. (card_id c, card_position c))
        (card_findMany (snd (POST demo_env (demo_create (Some 0)) demo_board)) ''clist0001'')
      = [(''ccard0001'', 0), (''ccard0009'', 0), (''ccard0002'', 1)]
   \<and> \<not> order_invariant (snd (POST demo_env (demo_create (Some 0)) demo_board))"
  by (simp add: demo_defs demo_board_def handler_defs order_invariant_def dense_positions_def
        card_findMany_def upt_rec)

subsection \<open>Dense lists stay dense under a move\<close>

text \<open>
  The route numbers the cards of a list \<open>0, 1, \<dots>, n - 1\<close>. A list is dense exactly when
  its positions are distinct and each lies below the count of the list.
\<close>

lemma dense_positions_iff:
  "dense_positions d l \<longleftrightarrow>
     distinct (map card_position (filter (\<lambda>c. card_listId c = l) (db_cards d)))
     \<and> (\<forall>c \<in> set (db_cards d). card_listId c = l \<longrightarrow>
            0 \<le> card_position c \<and> card_position c < card_count d l)"
proof -
  let ?xs = "filter (\<lambda>c. card_listId c = l) (db_cards d)"
  let ?ps = "map card_position (sort_key card_position ?xs)"
  let ?n = "length ?xs"
  have len: "length ?ps = ?n" by simp
  have sorted: "sorted ?ps" by simp
  have set_ps: "set ?ps = card_position ` set ?xs" by simp
  have dist_ps: "distinct ?ps \<longleftrightarrow> distinct (map card_position ?xs)"
    using strict_sorted_sort_key[of card_position ?xs] sorted by (simp add: strict_sorted_iff)
  have target: "sorted (map int [0 ..< ?n])" "distinct (map int [0 ..< ?n])"
    "set (map int [0 ..< ?n]) = int ` {0 ..< ?n}"
    by (simp_all add: sorted_map distinct_map inj_on_def sorted_wrt_iff_nth_less)
  show ?thesis
  proof
    assume "dense_positions d l"
    then have eq: "?ps = map int [0 ..< ?n]"
      by (simp add: dense_positions_def card_findMany_def)
    with target(2) dist_ps have d1: "distinct (map card_position ?xs)" by simp
    from eq set_ps target(3) have img: "card_position ` set ?xs = int ` {0 ..< ?n}" by simp
    have "\<forall>c \<in> set ?xs. 0 \<le> card_position c \<and> card_position c < int ?n"
    proof
      fix c assume "c \<in> set ?xs"
      then have "card_position c \<in> card_position ` set ?xs" by (rule imageI)
      with img obtain k where "k \<in> {0 ..< ?n}" "card_position c = int k" by auto
      then show "0 \<le> card_position c \<and> card_position c < int ?n" by simp
    qed
    with d1 show "distinct (map card_position ?xs)
       \<and> (\<forall>c \<in> set (db_cards d). card_listId c = l \<longrightarrow>
            0 \<le> card_position c \<and> card_position c < card_count d l)"
      by (auto simp: card_count_def)
  next
    assume a: "distinct (map card_position ?xs)
       \<and> (\<forall>c \<in> set (db_cards d). card_listId c = l \<longrightarrow>
            0 \<le> card_position c \<and> card_position c < card_count d l)"
    have sub: "card_position ` set ?xs \<subseteq> int ` {0 ..< ?n}"
    proof
      fix p assume "p \<in> card_position ` set ?xs"
      then obtain c where c: "c \<in> set (db_cards d)" "card_listId c = l" "p = card_position c"
        by auto
      with a have "0 \<le> p" "p < int ?n" by (simp_all add: card_count_def)
      then have "nat p \<in> {0 ..< ?n}" "p = int (nat p)" by simp_all
      then show "p \<in> int ` {0 ..< ?n}" by (rule_tac image_eqI[where x = "nat p"]) simp_all
    qed
    from a have "distinct (map card_position ?xs)" by simp
    then have "card (set (map card_position ?xs)) = length (map card_position ?xs)"
      by (rule distinct_card)
    then have "card (card_position ` set ?xs) = ?n" by simp
    moreover have "card (int ` {0 ..< ?n}) = ?n" by (simp add: card_image)
    ultimately have "card_position ` set ?xs = int ` {0 ..< ?n}"
      using sub by (intro card_subset_eq) simp_all
    with set_ps target(3) have "set ?ps = set (map int [0 ..< ?n])" by simp
    moreover from a dist_ps have "distinct ?ps" by simp
    ultimately have "?ps = map int [0 ..< ?n]"
      using sorted target(1,2) by (intro sorted_distinct_set_unique) simp_all
    then show "dense_positions d l" by (simp add: dense_positions_def card_findMany_def)
  qed
qed

lemma dense_everywhere: "dense_board d \<longleftrightarrow> (\<forall>l. dense_positions d l)"
proof
  assume a: "dense_board d"
  show "\<forall>l. dense_positions d l"
  proof
    fix l
    show "dense_positions d l"
    proof (cases "l \<in> card_listId ` set (db_cards d)")
      case True
      with a show ?thesis by (auto simp: dense_board_def list_all_iff)
    next
      case False
      then have "filter (\<lambda>c. card_listId c = l) (db_cards d) = []"
        by (rule filter_no_group)
      then show ?thesis by (simp add: dense_positions_def card_findMany_def)
    qed
  qed
next
  assume "\<forall>l. dense_positions d l"
  then show "dense_board d" by (simp add: dense_board_def list_all_iff)
qed

lemma dense_board_order:
  assumes "dense_board d"
  shows "order_invariant d"
proof -
  from assms have "\<forall>l. dense_positions d l" using dense_everywhere by blast
  then have "\<forall>l. distinct (map card_position (filter (\<lambda>c. card_listId c = l) (db_cards d)))"
    using dense_positions_iff by blast
  then have "distinct (map (\<lambda>c. (card_listId c, card_position c)) (db_cards d))"
    using distinct_pairs_by_group[of card_listId card_position "db_cards d"] by blast
  then show ?thesis
    by (simp add: order_invariant_iff position_key_def[abs_def])
qed

lemma count_change:
  assumes "distinct xs" and "x \<in> set xs" and "\<forall>y \<in> set xs. y \<noteq> x \<longrightarrow> P' y = P y"
  shows "int (length (filter P' xs))
         = int (length (filter P xs)) + (if P' x then 1 else 0) - (if P x then 1 else 0)"
  using assms
proof (induction xs)
  case Nil
  then show ?case by simp
next
  case (Cons y ys)
  show ?case
  proof (cases "y = x")
    case True
    with Cons.prems have "x \<notin> set ys" and "\<forall>z \<in> set ys. P' z = P z" by auto
    then have "filter P' ys = filter P ys" by (auto intro: filter_cong)
    with True show ?thesis by simp
  next
    case False
    with Cons.prems have "distinct ys" "x \<in> set ys" "\<forall>z \<in> set ys. z \<noteq> x \<longrightarrow> P' z = P z"
      and "P' y = P y" by auto
    with Cons.IH show ?thesis by (auto split: if_splits)
  qed
qed

lemma committed_count:
  assumes ids: "distinct (map card_id (db_cards d))"
    and found: "found \<in> set (db_cards d)" "card_id found = ident"
  shows "card_count (committed_move env ident body d userId found) l
         = card_count d l
           + (if destinationListId body = l then 1 else 0)
           - (if card_listId found = l then 1 else 0)"
proof -
  let ?F = "moved_row env ident (card_listId found) (card_position found)
              (destinationListId body) (newPosition body)"
  from ids have dist: "distinct (db_cards d)" and inj: "inj_on card_id (set (db_cards d))"
    by (simp_all add: distinct_map)
  have other: "card_listId (?F c) = card_listId c" if "c \<in> set (db_cards d)" "c \<noteq> found" for c
  proof -
    from that found inj have "card_id c \<noteq> ident" by (auto dest: inj_onD)
    then show ?thesis by (simp add: moved_row_def shifted_row_def)
  qed
  have self: "card_listId (?F found) = destinationListId body"
    using found(2) by (simp add: moved_row_def)
  have "card_count (committed_move env ident body d userId found) l
        = int (length (filter (\<lambda>c. card_listId (?F c) = l) (db_cards d)))"
    by (simp add: card_count_def committed_move_def filter_map comp_def)
  also have "\<dots> = int (length (filter (\<lambda>c. card_listId c = l) (db_cards d)))
        + (if card_listId (?F found) = l then 1 else 0) - (if card_listId found = l then 1 else 0)"
    by (rule count_change[OF dist found(1)]) (simp add: other)
  finally show ?thesis by (simp add: self card_count_def)
qed

lemma shifted_position_bounds:
  assumes "0 \<le> p" "p < cl" "0 \<le> s" "s < cs" "l \<noteq> src \<or> p \<noteq> s"
    and "l = src \<longrightarrow> cl = cs"
    and "0 \<le> n" "if src = dst then n < cs else n \<le> cd"
    and "l = dst \<longrightarrow> cl = cd"
  shows "0 \<le> shifted_position src s dst n l p
         \<and> shifted_position src s dst n l p
             < cl + (if dst = l then 1 else 0) - (if src = l then 1 else 0)"
  using assms unfolding shifted_position_def by (auto split: if_splits)

lemma committed_move_keeps_dense:
  assumes pk: "distinct (map card_id (db_cards d))" and dense: "dense_board d"
    and f: "card_findUnique d ident = Some found"
    and vi: "valid_index d (card_listId found) (destinationListId body) (newPosition body)"
    and order': "order_invariant (committed_move env ident body d userId found)"
  shows "dense_board (committed_move env ident body d userId found)"
proof -
  let ?src = "card_listId found" and ?s = "card_position found"
  let ?dst = "destinationListId body" and ?n = "newPosition body"
  let ?d' = "committed_move env ident body d userId found"
  let ?F = "moved_row env ident ?src ?s ?dst ?n"
  from card_findUnique_Some[OF f] have found: "found \<in> set (db_cards d)" "card_id found = ident"
    by simp_all
  from dense have all: "\<forall>l. dense_positions d l" using dense_everywhere by blast
  have bound: "0 \<le> card_position c \<and> card_position c < card_count d (card_listId c)"
    if "c \<in> set (db_cards d)" for c
    using all that dense_positions_iff[of d "card_listId c"] by blast
  from dense_board_order[OF dense] have keys: "distinct (map position_key (db_cards d))"
    by (simp add: order_invariant_iff)
  then have inj_key: "inj_on position_key (set (db_cards d))" by (simp add: distinct_map)
  from pk have inj_id: "inj_on card_id (set (db_cards d))" by (simp add: distinct_map)
  note count' = committed_count[OF pk found, of env body userId]
  have cards': "db_cards ?d' = map ?F (db_cards d)" by (simp add: committed_move_def)
  have "dense_positions ?d' l" for l
  proof -
    from order' have "distinct (map (\<lambda>c. (card_listId c, card_position c)) (db_cards ?d'))"
      by (simp add: order_invariant_iff position_key_def[abs_def])
    then have dist: "distinct (map card_position (filter (\<lambda>c. card_listId c = l) (db_cards ?d')))"
      using distinct_pairs_by_group[of card_listId card_position "db_cards ?d'"] by blast
    have "0 \<le> card_position c' \<and> card_position c' < card_count ?d' l"
      if c': "c' \<in> set (db_cards ?d')" "card_listId c' = l" for c'
    proof -
      from c'(1) cards' obtain c where c: "c \<in> set (db_cards d)" "c' = ?F c" by auto
      show ?thesis
      proof (cases "card_id c = ident")
        case True
        with c(2) have "card_listId c' = ?dst" "card_position c' = ?n"
          by (simp_all add: moved_row_def)
        with c'(2) vi count'[of l] bound[OF found(1)] show ?thesis
          by (auto simp: valid_index_def split: if_splits)
      next
        case False
        with c(2) have l: "card_listId c' = card_listId c"
          and p: "card_position c' = shifted_position ?src ?s ?dst ?n (card_listId c) (card_position c)"
          by (simp_all add: moved_row_def shifted_row_def)
        from False found(2) have "c \<noteq> found" by auto
        with inj_key c(1) found(1) have "position_key c \<noteq> position_key found"
          by (auto dest: inj_onD)
        then have ne: "card_listId c \<noteq> ?src \<or> card_position c \<noteq> ?s"
          by (auto simp: position_key_def)
        from vi have n0: "0 \<le> ?n"
          and nr: "if ?src = ?dst then ?n < card_count d ?src else ?n \<le> card_count d ?dst"
          by (auto simp: valid_index_def split: if_splits)
        from bound[OF c(1)] bound[OF found(1)]
        have "0 \<le> shifted_position ?src ?s ?dst ?n (card_listId c) (card_position c)
              \<and> shifted_position ?src ?s ?dst ?n (card_listId c) (card_position c)
                  < card_count d (card_listId c)
                    + (if ?dst = card_listId c then 1 else 0)
                    - (if ?src = card_listId c then 1 else 0)"
          by (intro shifted_position_bounds[OF _ _ _ _ ne _ n0 nr]) auto
        with l p c'(2) count'[of l] show ?thesis by simp
      qed
    qed
    with dist show ?thesis by (simp add: dense_positions_iff)
  qed
  then show ?thesis using dense_everywhere by blast
qed

text \<open>
  On a dense store with unique card ids, a move of an existing card to a valid index
  leaves the store dense, whether the request commits or fails.
\<close>

lemma move_keeps_dense:
  assumes "distinct (map card_id (db_cards d))" and "dense_board d"
    and "card_findUnique d ident = Some found"
    and "valid_index d (card_listId found) (destinationListId body) (newPosition body)"
  shows "dense_board (snd (PATCH env ident body d))"
proof -
  obtain resp d' where run: "PATCH env ident body d = (resp, d')"
    by (cases "PATCH env ident body d")
  from PATCH_keeps_order[OF assms(1) dense_board_order[OF assms(2)], of env ident body] run
  have order': "order_invariant d'" by simp
  from PATCH_outcome[OF run] assms(3) consider "d' = d"
    | userId where "d' = committed_move env ident body d userId found"
    by auto
  then show ?thesis
  proof cases
    case 1
    with run assms(2) show ?thesis by simp
  next
    case 2
    from committed_move_keeps_dense[OF assms(1,2,3,4) order'[unfolded 2]] 2 run
    show ?thesis by simp
  qed
qed

text \<open>
The sample move meets these hypotheses and changes the store.
\<close>

lemma move_keeps_dense_witness:
  "distinct (map card_id (db_cards demo_board)) \<and> dense_board demo_board
   \<and> card_findUnique demo_board ''ccard0001'' = Some (demo_card ''ccard0001'' ''clist0001'' 0)
   \<and> valid_index demo_board (card_listId (demo_card ''ccard0001'' ''clist0001'' 0))
        (destinationListId demo_move) (newPosition demo_move)
   \<and> dense_board (snd (PATCH demo_env ''ccard0001'' demo_move demo_board))
   \<and> snd (PATCH demo_env ''ccard0001'' demo_move demo_board) \<noteq> demo_board"
proof -
  have h1: "distinct (map card_id (db_cards demo_board))"
    by (simp add: demo_defs demo_board_def)
  have h2: "dense_board demo_board"
    by (simp add: demo_defs demo_board_def dense_board_def dense_positions_def
          card_findMany_def upt_rec)
  have h3: "card_findUnique demo_board ''ccard0001'' = Some (demo_card ''ccard0001'' ''clist0001'' 0)"
    by (simp add: card_findUnique_def demo_board_def demo_defs)
  have h4: "valid_index demo_board (card_listId (demo_card ''ccard0001'' ''clist0001'' 0))
        (destinationListId demo_move) (newPosition demo_move)"
    by (simp add: valid_index_def card_count_def demo_board_def demo_move_def demo_defs)
  have c: "snd (PATCH demo_env ''ccard0001'' demo_move demo_board) \<noteq> demo_board"
    by (simp add: demo_PATCH) (simp add: demo_defs demo_board_def)
  from move_keeps_dense[OF h1 h2 h3 h4, of demo_env] h1 h2 h3 h4 c show ?thesis by simp
qed

subsection \<open>C2: what a move across lists writes\<close>




subsection \<open>C6: the move is atomic\<close>

text \<open>
  C6: the move is atomic. The shifts of the siblings, the new list and position of the
  moved card and the activity record are committed together, in a single transaction.
  Whatever the stores committed before the request, a run of the handler either commits
  no store at all, or exactly one: the one in which all the shifts, the update of the
  card and the activity record are done, which is what the body of the transaction
  leaves when every one of its steps succeeds. If any step of the body fails, at
  whatever point and with whatever part of the shifts done in its working store, no
  store is committed and the request is answered with an error. So every store another
  connection can read during or after the request is the one the request started from
  or the one with the whole move.
\<close>

theorem move_is_atomic:
  assumes "PATCH_handler env ident body h = (resp, h')"
  shows "(h' = h
          \<or> (\<exists>userId found.
                env_session env = Some userId \<and> card_findUnique (last h) ident = Some found
                \<and> move_transaction env userId ident (card_listId found) (card_position found)
                     (destinationListId body) (newPosition body) (last h)
                   = (None, committed_move env ident body (last h) userId found)
                \<and> h' = h @ [committed_move env ident body (last h) userId found]))
         \<and> (\<forall>userId found e w.
               env_session env = Some userId \<and> card_findUnique (last h) ident = Some found
               \<and> move_transaction env userId ident (card_listId found) (card_position found)
                    (destinationListId body) (newPosition body) (last h) = (Some e, w)
               \<longrightarrow> h' = h \<and> response_status resp \<noteq> 200)
         \<and> (response_status resp = 200 \<longrightarrow> h' \<noteq> h)"
  using PATCH_handler_outcome[OF assms] by auto

text \<open>
  Three runs on the sample board. With a database that rejects the activity record the
  body of the transaction has shifted both lists and moved the card when it fails: no
  store is committed and the answer is 500. With nothing failing the whole move is
  committed and the answer is 200. When the read that follows the commit fails, the
  answer is 500 and the whole move is committed all the same.
\<close>

theorem move_is_atomic_witness:
  "move_transaction (failing_env CreateActivity) ''user1'' ''ccard0001''
          ''clist0001'' 0 ''clist0002'' 0 demo_board
   = (Some (Rejected CreateActivity), demo_committed\<lparr>db_activities := []\<rparr>)
   \<and> db_cards demo_committed \<noteq> db_cards demo_board
   \<and> PATCH_handler (failing_env CreateActivity) ''ccard0001'' demo_move [demo_board]
      = (internal_error, [demo_board])
   \<and> PATCH_handler demo_env ''ccard0001'' demo_move [demo_board]
      = (fst (PATCH_handler demo_env ''ccard0001'' demo_move [demo_board]),
         [demo_board, demo_committed])
   \<and> response_status (fst (PATCH_handler demo_env ''ccard0001'' demo_move [demo_board])) = 200
   \<and> PATCH_handler (failing_env FindUpdatedCard) ''ccard0001'' demo_move [demo_board]
      = (internal_error, [demo_board, demo_committed])"
proof -
  let ?run = "PATCH_handler (failing_env CreateActivity) ''ccard0001'' demo_move [demo_board]"
  have session: "env_session (failing_env CreateActivity) = Some ''user1''"
    by (simp add: failing_env_def demo_defs)
  have found: "card_findUnique (last [demo_board]) ''ccard0001''
               = Some (demo_card ''ccard0001'' ''clist0001'' 0)"
    by (simp add: card_findUnique_def demo_board_def demo_defs)
  have fails: "move_transaction (failing_env CreateActivity) ''user1'' ''ccard0001''
      (card_listId (demo_card ''ccard0001'' ''clist0001'' 0))
      (card_position (demo_card ''ccard0001'' ''clist0001'' 0))
      (destinationListId demo_move) (newPosition demo_move) (last [demo_board])
    = (Some (Rejected CreateActivity), demo_committed\<lparr>db_activities := []\<rparr>)"
    using demo_move_fails by (simp add: demo_defs demo_move_def)
  have partial: "db_cards demo_committed \<noteq> db_cards demo_board"
    by (simp add: demo_committed_def demo_board_def demo_defs)
  have status: "fst ?run = internal_error"
    by (simp add: failing_env_def demo_board_def demo_move_def demo_defs handler_defs)
  from move_is_atomic[OF surjective_pairing, of "failing_env CreateActivity" "''ccard0001''"
      demo_move "[demo_board]"] session found fails
  have "snd ?run = [demo_board]" by blast
  with status have rolled_back: "?run = (internal_error, [demo_board])"
    by (simp add: prod_eq_iff)
  from demo_move_fails partial rolled_back demo_PATCH_handler demo_PATCH_unread
  show ?thesis by simp
qed

text \<open>
  The create route, by contrast, writes the card and its activity in two statements of
  their own: when the second fails, the card is committed without its activity.
\<close>

lemma POST_is_not_atomic:
  "POST_handler (failing_env CreateActivity) (demo_create None) [demo_board]
   = (internal_error,
      [demo_board,
       demo_board\<lparr>db_cards := db_cards demo_board
          @ [new_card (failing_env CreateActivity) (demo_create None) 2]\<rparr>])"
  by (simp add: failing_env_def demo_board_def demo_defs handler_defs)

subsection \<open>C7: no version counter\<close>




subsection \<open>C8: who receives a published move\<close>

lemma board_room_inj: "board_room a = board_room b \<longleftrightarrow> a = b"
  by (simp add: board_room_def)

lemma board_room_not_sid: "take 6 sid \<noteq> ''board:'' \<Longrightarrow> board_room b \<noteq> sid"
  by (auto simp: board_room_def)

lemma io_after_sockets: "io_sockets (io_after h) sid \<noteq> None \<longleftrightarrow> socket_connected h sid"
proof (induction h)
  case Nil
  then show ?case by (simp add: io_start_def)
next
  case (Cons ev older)
  obtain t e where ev: "ev = (t, e)" by (cases ev)
  show ?case
  proof (cases e)
    case (Connection u)
    with ev Cons show ?thesis by (simp add: socket_join_def)
  next
    case (BoardJoin b)
    with ev Cons show ?thesis
      by (cases "io_sockets (io_after older) t") (auto simp: socket_join_def Let_def)
  next
    case (BoardLeave b)
    with ev Cons show ?thesis
      by (cases "io_sockets (io_after older) t") (auto simp: socket_leave_def Let_def)
  next
    case (CardMovedBy b data)
    with ev Cons show ?thesis
      by (cases "io_sockets (io_after older) t") auto
  next
    case Disconnect
    with ev Cons show ?thesis
      by (cases "io_sockets (io_after older) t") auto
  qed
qed

lemma io_after_board_rooms:
  assumes "socket_ids_ok h"
  shows "sid \<in> io_rooms (io_after h) (board_room b) \<longleftrightarrow> joined_board h sid b"
  using assms
proof (induction h)
  case Nil
  then show ?case by (simp add: io_start_def)
next
  case (Cons ev older)
  obtain t e where ev: "ev = (t, e)" by (cases ev)
  from Cons.prems ev have ok: "socket_ids_ok older" and t: "take 6 t \<noteq> ''board:''"
    by (simp_all add: socket_ids_ok_def)
  note IH = Cons.IH[OF ok]
  note conn = io_after_sockets[of older t]
  show ?case
  proof (cases e)
    case (Connection u)
    with ev IH board_room_not_sid[OF t, of b] show ?thesis
      by (auto simp: socket_join_def)
  next
    case (BoardJoin b')
    with ev IH conn show ?thesis
      by (cases "io_sockets (io_after older) t")
         (auto simp: socket_join_def Let_def board_room_inj)
  next
    case (BoardLeave b')
    with ev IH conn show ?thesis
      by (cases "io_sockets (io_after older) t")
         (auto simp: socket_leave_def Let_def board_room_inj)
  next
    case (CardMovedBy b' data)
    with ev IH conn show ?thesis
      by (cases "io_sockets (io_after older) t") auto
  next
    case Disconnect
    with ev IH conn show ?thesis
      by (cases "io_sockets (io_after older) t") auto
  qed
qed

lemma io_after_own_room:
  assumes "socket_ids_ok h" and "take 6 sid \<noteq> ''board:''"
  shows "io_rooms (io_after h) sid = (if socket_connected h sid then {sid} else {})"
  using assms(1)
proof (induction h)
  case Nil
  then show ?case by (simp add: io_start_def)
next
  case (Cons ev older)
  obtain t e where ev: "ev = (t, e)" by (cases ev)
  from Cons.prems ev have ok: "socket_ids_ok older"
    by (simp_all add: socket_ids_ok_def)
  note IH = Cons.IH[OF ok]
  note conn = io_after_sockets[of older t]
  note sid = board_room_not_sid[OF assms(2)]
  show ?case
  proof (cases e)
    case (Connection u)
    with ev IH show ?thesis
      by (auto simp: socket_join_def)
  next
    case (BoardJoin b')
    with ev IH conn sid[of b'] show ?thesis
      by (cases "io_sockets (io_after older) t")
         (auto simp: socket_join_def Let_def)
  next
    case (BoardLeave b')
    with ev IH conn sid[of b'] show ?thesis
      by (cases "io_sockets (io_after older) t")
         (auto simp: socket_leave_def Let_def)
  next
    case (CardMovedBy b' data)
    with ev IH conn show ?thesis
      by (cases "io_sockets (io_after older) t") auto
  next
    case Disconnect
    with ev IH conn show ?thesis
      by (cases "io_sockets (io_after older) t") auto
  qed
qed

lemma connected_in_history:
  "socket_connected h sid \<Longrightarrow> \<exists>ev \<in> set h. fst ev = sid"
  by (induction h) (auto split: if_splits)

text \<open>
  C8: publishing a move to a board room delivers the event to every connection currently
  joined to the room of that board except the originating connection, and to no other
  connection. Whatever happened before, the \<^verbatim>\<open>card:moved\<close> of a connected socket is
  delivered, once each, to exactly the sockets that have joined the board and not left
  or disconnected since, the sender excepted.
\<close>

theorem card_moved_reaches_the_room:
  assumes "socket_ids_ok h" and "socket_connected h sid"
  shows "snd (io_handle (io_after h) (sid, CardMovedBy boardId data))
         = {(t, CardMoved data) | t. joined_board h t boardId \<and> t \<noteq> sid}"
proof -
  from connected_in_history[OF assms(2)] assms(1) have sid: "take 6 sid \<noteq> ''board:''"
    by (auto simp: socket_ids_ok_def list_all_iff)
  from assms(2) obtain u where u: "io_sockets (io_after h) sid = Some u"
    using io_after_sockets[of h sid] by auto
  have "io_rooms (io_after h) (board_room boardId) - io_rooms (io_after h) sid
        = {t. joined_board h t boardId \<and> t \<noteq> sid}"
    using io_after_board_rooms[OF assms(1)] io_after_own_room[OF assms(1) sid] assms(2) by auto
  with u show ?thesis by (auto simp: socket_to_emit_def)
qed

text \<open>
  In the sample history sockets 1, 2 and 4 joined board \<^verbatim>\<open>b1\<close>, socket 4 left again and
  socket 3 is on another board: a move published by socket 1 reaches socket 2 alone.
\<close>

lemma demo_delivery:
  "snd (io_handle (io_after demo_history) (''sock1'', CardMovedBy ''b1'' demo_moved))
   = {(''sock2'', CardMoved demo_moved)}"
  by (simp add: demo_history_def io_start_def socket_join_def socket_leave_def
        socket_to_emit_def board_room_def Let_def insert_Diff_if)

theorem card_moved_reaches_the_room_witness:
  "socket_ids_ok demo_history \<and> socket_connected demo_history ''sock1''
   \<and> snd (io_handle (io_after demo_history) (''sock1'', CardMovedBy ''b1'' demo_moved))
      = {(''sock2'', CardMoved demo_moved)}
   \<and> {(t, CardMoved demo_moved) | t. joined_board demo_history t ''b1'' \<and> t \<noteq> ''sock1''}
      = {(''sock2'', CardMoved demo_moved)}"
proof -
  have h1: "socket_ids_ok demo_history"
    by (simp add: socket_ids_ok_def demo_history_def)
  have h2: "socket_connected demo_history ''sock1''"
    by (simp add: demo_history_def)
  from card_moved_reaches_the_room[OF h1 h2, of "''b1''" demo_moved] demo_delivery h1 h2
  show ?thesis by simp
qed

subsection \<open>C9: applying a broadcast move twice\<close>

lemma length_renumber_from [simp]: "length (renumber_from i cs) = length cs"
  by (induction cs arbitrary: i) auto

lemma ids_renumber_from [simp]: "map card_id (renumber_from i cs) = map card_id cs"
  by (induction cs arbitrary: i) auto

lemma ids_renumber_set: "card_id ` set (renumber_from i cs) = card_id ` set cs"
  by (metis ids_renumber_from set_map)

lemma renumber_from_append:
  "renumber_from i (xs @ ys) = renumber_from i xs @ renumber_from (i + length xs) ys"
  by (induction xs arbitrary: i) auto

lemma renumber_from_twice [simp]: "renumber_from i (renumber_from j cs) = renumber_from i cs"
  by (induction cs arbitrary: i j) auto

lemma findIndex_none: "\<forall>x \<in> set xs. \<not> P x \<Longrightarrow> findIndex P xs = None"
  by (induction xs) auto

lemma findIndex_hit:
  "\<forall>x \<in> set xs. \<not> P x \<Longrightarrow> P y \<Longrightarrow> findIndex P (xs @ y # ys) = Some (length xs)"
  by (induction xs) auto

lemma findIndex_Some:
  "findIndex P xs = Some i \<Longrightarrow> i < length xs \<and> P (xs ! i) \<and> (\<forall>j < i. \<not> P (xs ! j))"
proof (induction xs arbitrary: i)
  case Nil
  then show ?case by simp
next
  case (Cons x xs)
  show ?case
  proof (cases "P x")
    case True
    with Cons.prems show ?thesis by simp
  next
    case False
    with Cons.prems obtain i' where i': "findIndex P xs = Some i'" "i = Suc i'" by auto
    from Cons.IH[OF i'(1)] False i'(2) show ?thesis
      by (auto simp: nth_Cons split: nat.splits)
  qed
qed

lemma take_card_None: "take_card cid es = (None, es1) \<Longrightarrow> es1 = es"
proof (induction es arbitrary: es1)
  case Nil
  then show ?case by simp
next
  case (Cons e es)
  obtain l cs where e: "e = (l, cs)" by (cases e)
  obtain r rest' where rec: "take_card cid es = (r, rest')" by (cases "take_card cid es")
  from Cons.prems e rec have "r = None" "es1 = (l, cs) # rest'"
    by (auto split: option.splits)
  with Cons.IH[of rest'] rec e show ?case by simp
qed

lemma take_card_absent:
  "cid \<notin> set (card_ids es) \<Longrightarrow> take_card cid es = (None, es)"
proof (induction es)
  case Nil
  then show ?case by simp
next
  case (Cons e es)
  obtain l cs where e: "e = (l, cs)" by (cases e)
  from Cons.prems e have a: "\<forall>c \<in> set cs. \<not> card_id c = cid" and b: "cid \<notin> set (card_ids es)"
    by (auto simp: card_ids_def)
  from findIndex_none[OF a] Cons.IH[OF b] e show ?case by simp
qed

lemma ids_splice_out:
  assumes "i < length cs" "distinct (map card_id cs)"
  shows "card_id (cs ! i) \<notin> set (map card_id (splice_out i cs))"
    and "set (map card_id (splice_out i cs)) \<subseteq> set (map card_id cs)"
proof -
  from assms(1) have cs: "cs = take i cs @ cs ! i # drop (Suc i) cs"
    by (simp add: id_take_nth_drop)
  then have "map card_id cs = map card_id (take i cs) @ card_id (cs ! i) # map card_id (drop (Suc i) cs)"
    by (metis list.simps(9) map_append)
  with assms(2) have "card_id (cs ! i) \<notin> set (map card_id (take i cs))"
    "card_id (cs ! i) \<notin> set (map card_id (drop (Suc i) cs))"
    by (metis distinct_append distinct.simps(2) disjoint_iff list.set_intros(1))+
  then show "card_id (cs ! i) \<notin> set (map card_id (splice_out i cs))"
    by (simp add: splice_out_def)
  show "set (map card_id (splice_out i cs)) \<subseteq> set (map card_id cs)"
    by (auto simp: splice_out_def dest: in_set_takeD in_set_dropD)
qed

lemma take_card_found:
  assumes "take_card cid es = (Some c, es1)"
  shows "card_id c = cid \<and> map fst es1 = map fst es
         \<and> (distinct (card_ids es) \<longrightarrow> cid \<notin> set (card_ids es1))"
  using assms
proof (induction es arbitrary: es1)
  case Nil
  then show ?case by simp
next
  case (Cons e es)
  obtain l cs where e: "e = (l, cs)" by (cases e)
  show ?case
  proof (cases "findIndex (\<lambda>c. card_id c = cid) cs")
    case (Some i)
    from findIndex_Some[OF Some] have i: "i < length cs" "card_id (cs ! i) = cid" by auto
    from Cons.prems e Some have c: "c = cs ! i" and es1: "es1 = (l, splice_out i cs) # es"
      by auto
    have "cid \<notin> set (card_ids es1)" if d: "distinct (card_ids (e # es))"
    proof -
      from d e have dcs: "distinct (map card_id cs)"
        and disj: "set (map card_id cs) \<inter> set (card_ids es) = {}"
        by (auto simp: card_ids_def)
      from i have "cid \<in> set (map card_id cs)" by force
      with disj have "cid \<notin> set (card_ids es)" by blast
      with ids_splice_out(1)[OF i(1) dcs] i(2) es1 show ?thesis
        by (simp add: card_ids_def)
    qed
    with c i es1 e show ?thesis by simp
  next
    case None
    obtain r rest' where rec: "take_card cid es = (r, rest')" by (cases "take_card cid es")
    from Cons.prems e None rec have r: "r = Some c" and es1: "es1 = (l, cs) # rest'" by auto
    from Cons.IH[of rest'] rec r
    have IH: "card_id c = cid" "map fst rest' = map fst es"
      "distinct (card_ids es) \<longrightarrow> cid \<notin> set (card_ids rest')" by auto
    have "cid \<notin> set (map card_id cs)"
    proof
      assume "cid \<in> set (map card_id cs)"
      then obtain j where "j < length cs" "card_id (cs ! j) = cid"
        by (auto simp: in_set_conv_nth)
      then have "\<exists>x \<in> set cs. card_id x = cid" by auto
      then have "findIndex (\<lambda>c. card_id c = cid) cs \<noteq> None"
        by (induction cs) auto
      with None show False by simp
    qed
    with IH es1 e show ?thesis by (auto simp: card_ids_def)
  qed
qed

lemma insertion_index_le: "insertion_index start len \<le> len"
  by (auto simp: insertion_index_def)

lemma splice_in_index:
  "splice_in start x xs =
     take (insertion_index start (length xs)) xs @ x # drop (insertion_index start (length xs)) xs"
  by (simp add: splice_in_def insertion_index_def Let_def)

lemma placed_fun: "(\<lambda>xs. renumber_from 0 (splice_in start m xs)) = placed start m"
  by (simp add: placed_def fun_eq_iff)

lemma placed_parts:
  "placed start m xs =
     renumber_from 0 (take (insertion_index start (length xs)) xs)
     @ m\<lparr>card_position := int (insertion_index start (length xs))\<rparr>
     # renumber_from (Suc (insertion_index start (length xs)))
         (drop (insertion_index start (length xs)) xs)"
  using insertion_index_le[of start "length xs"]
  by (simp add: placed_def splice_in_index renumber_from_append min_def)

lemma placed_again:
  assumes "card_id m = cid" and "\<forall>c \<in> set xs. card_id c \<noteq> cid"
  shows "findIndex (\<lambda>c. card_id c = cid) (placed start m xs)
           = Some (insertion_index start (length xs))"
    and "placed start (m\<lparr>card_position := p\<rparr>)
           (splice_out (insertion_index start (length xs)) (placed start m xs))
         = placed start m xs"
    and "placed start m xs ! insertion_index start (length xs)
         = m\<lparr>card_position := int (insertion_index start (length xs))\<rparr>"
proof -
  let ?k = "insertion_index start (length xs)"
  let ?A = "renumber_from 0 (take ?k xs)"
  let ?B = "renumber_from (Suc ?k) (drop ?k xs)"
  let ?mk = "m\<lparr>card_position := int ?k\<rparr>"
  note k = insertion_index_le[of start "length xs"]
  have parts: "placed start m xs = ?A @ ?mk # ?B" by (rule placed_parts)
  have lenA: "length ?A = ?k" using k by simp
  have "\<forall>c \<in> set ?A. card_id c \<noteq> cid"
  proof
    fix c assume "c \<in> set ?A"
    then have "card_id c \<in> card_id ` set ?A" by (rule imageI)
    then have "card_id c \<in> card_id ` set (take ?k xs)" by (simp only: ids_renumber_set)
    then have "card_id c \<in> card_id ` set xs" by (auto dest: in_set_takeD)
    with assms(2) show "card_id c \<noteq> cid" by auto
  qed
  then have "\<forall>c \<in> set ?A. \<not> card_id c = cid" by simp
  from findIndex_hit[of ?A "\<lambda>c. card_id c = cid" ?mk ?B, OF this] assms(1) lenA parts
  show "findIndex (\<lambda>c. card_id c = cid) (placed start m xs) = Some ?k" by simp
  show "placed start m xs ! ?k = ?mk"
    using parts lenA by (metis nth_append_length)
  have out: "splice_out ?k (placed start m xs) = ?A @ ?B"
    using parts lenA by (simp add: splice_out_def)
  have len: "length (?A @ ?B) = length xs" using k by simp
  have "placed start (m\<lparr>card_position := p\<rparr>) (?A @ ?B)
        = renumber_from 0 (take ?k (?A @ ?B))
          @ (m\<lparr>card_position := p\<rparr>)\<lparr>card_position := int ?k\<rparr>
          # renumber_from (Suc ?k) (drop ?k (?A @ ?B))"
    using placed_parts[of start "m\<lparr>card_position := p\<rparr>" "?A @ ?B"] len by simp
  also have "\<dots> = ?A @ ?mk # ?B" using lenA by simp
  finally show "placed start (m\<lparr>card_position := p\<rparr>)
           (splice_out ?k (placed start m xs)) = placed start m xs"
    using out parts by simp
qed

lemma at_key_absent: "l \<notin> fst ` set es \<Longrightarrow> at_key l f es = es"
  by (induction es) (auto simp: at_key_def)

lemma at_key_twice: "at_key l f (at_key l g es) = at_key l (f \<circ> g) es"
  by (induction es) (auto simp: at_key_def)

lemma at_key_keys [simp]: "map fst (at_key l f es) = map fst es"
  by (induction es) (auto simp: at_key_def)

lemma at_key_cong:
  "(\<And>xs. (l, xs) \<in> set es \<Longrightarrow> f xs = g xs) \<Longrightarrow> at_key l f es = at_key l g es"
  by (induction es) (auto simp: at_key_def)

lemma map_of_keys: "map_of es l = None \<longleftrightarrow> l \<notin> fst ` set es"
  by (simp add: map_of_eq_None_iff)

lemma take_card_placed:
  assumes "l \<in> fst ` set es" and "distinct (map fst es)" and "cid \<notin> set (card_ids es)"
    and "card_id m = cid"
  shows "\<exists>k. take_card cid (at_key l (placed start m) es)
           = (Some (m\<lparr>card_position := int k\<rparr>),
              at_key l (\<lambda>xs. splice_out (insertion_index start (length xs)) (placed start m xs)) es)"
  using assms(1,2,3)
proof (induction es)
  case Nil
  then show ?case by simp
next
  case (Cons e es)
  obtain l' cs where e: "e = (l', cs)" by (cases e)
  from Cons.prems(3) e have nocs: "\<forall>c \<in> set cs. card_id c \<noteq> cid"
    and norest: "cid \<notin> set (card_ids es)"
    by (auto simp: card_ids_def)
  show ?case
  proof (cases "l' = l")
    case True
    with Cons.prems(2) e have "l \<notin> fst ` set es" by auto
    then have rest: "at_key l f es = es" for f by (rule at_key_absent)
    note pa = placed_again[OF assms(4) nocs, of start]
    from True e rest pa(1) pa(3) show ?thesis
      by (auto simp: at_key_def)
  next
    case False
    with Cons.prems(1) e have "l \<in> fst ` set es" by auto
    from Cons.IH[OF this _ norest] Cons.prems(2) obtain k where
      IH: "take_card cid (at_key l (placed start m) es)
           = (Some (m\<lparr>card_position := int k\<rparr>),
              at_key l (\<lambda>xs. splice_out (insertion_index start (length xs)) (placed start m xs)) es)"
      by auto
    from nocs have "findIndex (\<lambda>c. card_id c = cid) cs = None"
      by (intro findIndex_none) simp
    with False e IH show ?thesis by (auto simp: at_key_def)
  qed
qed

lemma moveCard_idempotent:
  assumes "distinct (map fst cards)" and "distinct (card_ids cards)"
  shows "moveCard cid l n (moveCard cid l n cards) = moveCard cid l n cards"
proof (cases "take_card cid cards")
  case (Pair found cards1)
  show ?thesis
  proof (cases found)
    case None
    with Pair take_card_None[of cid cards cards1] have "moveCard cid l n cards = cards"
      by (simp add: moveCard_def)
    then show ?thesis by simp
  next
    case (Some c)
    show ?thesis
    proof (cases "map_of cards1 l = None \<and> prototype_key l")
    case True
    with Pair Some have "moveCard cid l n cards = cards" by (simp add: moveCard_def)
    then show ?thesis by simp
    next
    case False
    note runs = this
    define m where "m = c\<lparr>card_listId := l, card_position := n\<rparr>"
    define cards2 where
      "cards2 = (if map_of cards1 l = None then cards1 @ [(l, [])] else cards1)"
    from take_card_found[of cid cards c cards1] Pair Some assms(2)
    have c: "card_id c = cid" and keys1: "map fst cards1 = map fst cards"
      and no1: "cid \<notin> set (card_ids cards1)" by auto
    have m: "card_id m = cid" using c by (simp add: m_def)
    have first: "moveCard cid l n cards = at_key l (placed n m) cards2"
      using Pair Some runs
      by (auto simp: moveCard_def Let_def m_def cards2_def at_key_twice comp_def placed_fun)
    have in2: "l \<in> fst ` set cards2"
      by (auto simp: cards2_def map_of_keys)
    have d1: "distinct (map fst cards1)" using assms(1) keys1 by simp
    have d2: "distinct (map fst cards2)"
      using d1 by (auto simp: cards2_def map_of_keys)
    have no2: "cid \<notin> set (card_ids cards2)"
      using no1 by (simp add: cards2_def card_ids_def)
    let ?G = "\<lambda>xs. splice_out (insertion_index n (length xs)) (placed n m xs)"
    from take_card_placed[OF in2 d2 no2 m, of n] obtain k where
      again: "take_card cid (at_key l (placed n m) cards2)
              = (Some (m\<lparr>card_position := int k\<rparr>), at_key l ?G cards2)" by blast
    have same_m: "(m\<lparr>card_position := int k\<rparr>)\<lparr>card_listId := l, card_position := n\<rparr> = m"
      by (simp add: m_def)
    have "map_of (at_key l ?G cards2) l \<noteq> None"
      using in2 by (simp add: map_of_keys) (metis at_key_keys list.set_map)
    then obtain y where present: "map_of (at_key l ?G cards2) l = Some y" by blast
    have each: "placed n m (?G xs) = placed n m xs" if "(l, xs) \<in> set cards2" for xs
    proof -
      from that no2 have "\<forall>c \<in> set xs. card_id c \<noteq> cid"
        by (force simp: card_ids_def)
      from placed_again(2)[OF m this, of n n] show ?thesis by (simp add: m_def)
    qed
    have "moveCard cid l n (at_key l (placed n m) cards2)
          = at_key l (placed n m) (at_key l ?G cards2)"
      using again same_m present
      by (simp add: moveCard_def Let_def at_key_twice comp_def placed_fun)
    also have "\<dots> = at_key l (\<lambda>xs. placed n m (?G xs)) cards2"
      by (simp add: at_key_twice comp_def)
    also have "\<dots> = at_key l (placed n m) cards2"
      by (rule at_key_cong) (rule each)
    finally show ?thesis using first by simp
    qed
  qed
qed

lemmas client_defs = moveCard_def prototype_key_def at_key_def splice_in_def splice_out_def
  Let_def

lemma demo_moveCard:
  "moveCard ''ccard0001'' ''clist0002'' 0 demo_cards =
     [(''clist0001'', [demo_card ''ccard0002'' ''clist0001'' 1]),
      (''clist0002'', [demo_card ''ccard0001'' ''clist0002'' 0, demo_card ''ccard0003'' ''clist0002'' 1])]"
  by (simp add: demo_cards_def demo_card_def client_defs)

text \<open>
  C9 as the spec states it: the client applies a result as an upsert keyed by item id and
  version and discards a result that is not newer than what it holds. The event carries
  no version and the client keeps none: a result that arrives again after a newer one
  has been applied is applied again. On the sample state the card moves to list 2, then
  back to list 1; the first event, delivered once more, moves it to list 2 again.
\<close>

theorem stale_result_counterexample:
  "on_card_moved demo_moved
     (on_card_moved (demo_moved\<lparr>moved_sourceListId := ''clist0002'',
                                 moved_destListId := ''clist0001''\<rparr>)
        (on_card_moved demo_moved demo_cards))
   \<noteq> on_card_moved (demo_moved\<lparr>moved_sourceListId := ''clist0002'',
                                   moved_destListId := ''clist0001''\<rparr>)
        (on_card_moved demo_moved demo_cards)"
  by (simp add: on_card_moved_def demo_moved_def demo_cards_def demo_card_def client_defs)

text \<open>
  C9, amended: applying the same incoming broadcast move twice in a row to a client state
  whose list keys and card ids are unique gives the same state as applying it once (the
  card is taken out and put back at the same place).
\<close>

theorem card_moved_twice_is_once:
  assumes "distinct (map fst cards)" and "distinct (card_ids cards)"
  shows "on_card_moved data (on_card_moved data cards) = on_card_moved data cards"
  unfolding on_card_moved_def by (rule moveCard_idempotent[OF assms])

text \<open>
The hypotheses of C9 hold on the sample state, where the move changes the state.
\<close>

theorem card_moved_twice_is_once_witness:
  "distinct (map fst demo_cards) \<and> distinct (card_ids demo_cards)
   \<and> on_card_moved demo_moved demo_cards \<noteq> demo_cards
   \<and> on_card_moved demo_moved (on_card_moved demo_moved demo_cards)
      = [(''clist0001'', [demo_card ''ccard0002'' ''clist0001'' 1]),
         (''clist0002'', [demo_card ''ccard0001'' ''clist0002'' 0,
                          demo_card ''ccard0003'' ''clist0002'' 1])]"
proof -
  have h1: "distinct (map fst demo_cards)" by (simp add: demo_cards_def)
  have h2: "distinct (card_ids demo_cards)"
    by (simp add: demo_cards_def card_ids_def demo_card_def)
  have once: "on_card_moved demo_moved demo_cards
      = [(''clist0001'', [demo_card ''ccard0002'' ''clist0001'' 1]),
         (''clist0002'', [demo_card ''ccard0001'' ''clist0002'' 0,
                          demo_card ''ccard0003'' ''clist0002'' 1])]"
    using demo_moveCard by (simp add: on_card_moved_def demo_moved_def)
  have changed: "on_card_moved demo_moved demo_cards \<noteq> demo_cards"
    unfolding once by (simp add: demo_cards_def)
  from card_moved_twice_is_once[OF h1 h2, of demo_moved] once changed h1 h2
  show ?thesis by simp
qed

text \<open>
  A move to a list key that names a property of \<^verbatim>\<open>Object.prototype\<close> throws and leaves
  the state as it was.
\<close>

lemma moveCard_prototype_key:
  "moveCard ''ccard0001'' ''toString'' 0 demo_cards = demo_cards"
  by (simp add: demo_cards_def demo_card_def client_defs)

subsection \<open>C10: dropping a task on a column\<close>

lemma filter_id_remove1:
  assumes "distinct (map task_id ts)" and "t \<in> set ts"
  shows "filter (\<lambda>x. task_id x \<noteq> task_id t) ts = remove1 t ts"
  using assms
proof (induction ts)
  case Nil
  then show ?case by simp
next
  case (Cons a ts)
  show ?case
  proof (cases "a = t")
    case True
    with Cons.prems have "task_id t \<notin> task_id ` set ts" by simp
    then have "\<forall>x \<in> set ts. task_id x \<noteq> task_id t" by (metis imageI)
    then have "filter (\<lambda>x. task_id x \<noteq> task_id t) ts = ts" by (simp add: filter_id_conv)
    with True show ?thesis by simp
  next
    case False
    with Cons.prems have "t \<in> set ts" "task_id a \<noteq> task_id t" by force+
    with Cons False show ?thesis by simp
  qed
qed

lemma mset_dropped_column:
  assumes "src \<noteq> target" and "column_id c = src \<longrightarrow> t \<in> set (column_tasks c)"
  shows "mset (column_tasks (dropped_column t src target c))
           + replicate_mset (if column_id c = src then 1 else 0) t
         = mset (column_tasks c) + replicate_mset (if column_id c = target then 1 else 0) t"
  using assms by (simp add: dropped_column_def)

lemma mset_dropped_columns:
  assumes "src \<noteq> target"
    and "\<forall>col \<in> set cols. column_id col = src \<longrightarrow> t \<in> set (column_tasks col)"
  shows "mset (concat (map column_tasks (map (dropped_column t src target) cols)))
           + replicate_mset (length (filter (\<lambda>c. column_id c = src) cols)) t
         = mset (concat (map column_tasks cols))
           + replicate_mset (length (filter (\<lambda>c. column_id c = target) cols)) t"
  using assms(2)
proof (induction cols)
  case Nil
  then show ?case by simp
next
  case (Cons c cols)
  let ?D = "dropped_column t src target"
  from Cons.prems have IH:
    "mset (concat (map column_tasks (map ?D cols)))
       + replicate_mset (length (filter (\<lambda>c. column_id c = src) cols)) t
     = mset (concat (map column_tasks cols))
       + replicate_mset (length (filter (\<lambda>c. column_id c = target) cols)) t"
    by (intro Cons.IH) simp
  from Cons.prems have "column_id c = src \<longrightarrow> t \<in> set (column_tasks c)" by simp
  note head = mset_dropped_column[OF assms(1) this]
  have "mset (concat (map column_tasks (map ?D (c # cols))))
          + replicate_mset (length (filter (\<lambda>c. column_id c = src) (c # cols))) t
        = (mset (column_tasks (?D c)) + replicate_mset (if column_id c = src then 1 else 0) t)
          + (mset (concat (map column_tasks (map ?D cols)))
             + replicate_mset (length (filter (\<lambda>c. column_id c = src) cols)) t)"
    by simp
  also have "\<dots> = (mset (column_tasks c) + replicate_mset (if column_id c = target then 1 else 0) t)
          + (mset (concat (map column_tasks cols))
             + replicate_mset (length (filter (\<lambda>c. column_id c = target) cols)) t)"
    by (simp only: head IH)
  also have "\<dots> = mset (concat (map column_tasks (c # cols)))
          + replicate_mset (length (filter (\<lambda>c. column_id c = target) (c # cols))) t"
    by simp
  finally show ?case .
qed

lemma one_with_id:
  assumes "distinct (map f xs)" and "k \<in> set (map f xs)"
  shows "length (filter (\<lambda>x. f x = k) xs) = 1"
  using assms
proof (induction xs)
  case Nil
  then show ?case by simp
next
  case (Cons x xs)
  show ?case
  proof (cases "f x = k")
    case True
    with Cons.prems have "k \<notin> f ` set xs" by simp
    then have "\<forall>y \<in> set xs. f y \<noteq> k" by (metis imageI)
    then have "filter (\<lambda>x. f x = k) xs = []" by (simp add: filter_empty_conv)
    with True show ?thesis by simp
  next
    case False
    with Cons show ?thesis by simp
  qed
qed

text \<open>
  C10 as the spec states it: for every drop onto a column other than the source column
  the dragged task is removed from the source column and appended to the target column,
  and the multiset of tasks across all columns is preserved. The handler removes by id:
  on a board whose backlog holds two tasks of the same id, dropping one of them on the
  next column removes both from the backlog and appends one. Four tasks become three.
\<close>

theorem handleDrop_duplicate_id_counterexample:
  "draggedTask (handleDragStart (demo_task ''1'') ''backlog'' duplicate_kanban)
     = Some (demo_task ''1'', ''backlog'')
   \<and> task_in_column (handleDragStart (demo_task ''1'') ''backlog'' duplicate_kanban)
        (demo_task ''1'') ''backlog''
   \<and> ''todo'' \<in> set (map column_id
                        (columns (handleDragStart (demo_task ''1'') ''backlog'' duplicate_kanban)))
   \<and> map column_tasks
        (columns (handleDrop ''todo'' (handleDragStart (demo_task ''1'') ''backlog'' duplicate_kanban)))
      = [[demo_task ''2''], [demo_task ''4'', demo_task ''1'']]
   \<and> size (all_tasks (handleDragStart (demo_task ''1'') ''backlog'' duplicate_kanban)) = 4
   \<and> size (all_tasks
        (handleDrop ''todo'' (handleDragStart (demo_task ''1'') ''backlog'' duplicate_kanban))) = 3
   \<and> all_tasks (handleDrop ''todo'' (handleDragStart (demo_task ''1'') ''backlog'' duplicate_kanban))
      \<noteq> all_tasks (handleDragStart (demo_task ''1'') ''backlog'' duplicate_kanban)"
proof -
  let ?st = "handleDragStart (demo_task ''1'') ''backlog'' duplicate_kanban"
  have cols: "map column_tasks (columns (handleDrop ''todo'' ?st))
      = [[demo_task ''2''], [demo_task ''4'', demo_task ''1'']]"
    by (simp add: handleDrop_def handleDragStart_def duplicate_kanban_def demo_task_def)
  have before: "size (all_tasks ?st) = 4"
    by (simp add: all_tasks_def handleDragStart_def duplicate_kanban_def)
  have "all_tasks (handleDrop ''todo'' ?st)
        = mset (concat (map column_tasks (columns (handleDrop ''todo'' ?st))))"
    by (simp add: all_tasks_def)
  then have after: "size (all_tasks (handleDrop ''todo'' ?st)) = 3"
    by (simp only: cols) simp
  from before after have "all_tasks (handleDrop ''todo'' ?st) \<noteq> all_tasks ?st" by auto
  with cols before after show ?thesis
    by (simp add: handleDragStart_def duplicate_kanban_def task_in_column_def)
qed

text \<open>
  C10, amended: on a board whose column ids are distinct and whose task ids are distinct
  within each column, with the dragged task in its source column and the target a
  column of the board, a drop on the column the dragged task came from leaves the
  columns unchanged; a drop on another column removes the dragged task from its source
  column and appends it at the end of the target column; in both cases the multiset of
  tasks across all columns is preserved.
\<close>

theorem handleDrop_moves_task:
  assumes "draggedTask st = Some (t, src)" and "kanban_well_formed st"
    and "task_in_column st t src" and "target \<in> set (map column_id (columns st))"
  shows "(src = target \<longrightarrow> columns (handleDrop target st) = columns st)
         \<and> (src \<noteq> target \<longrightarrow>
              columns (handleDrop target st) = map (dropped_column t src target) (columns st))
         \<and> all_tasks (handleDrop target st) = all_tasks st"
proof -
  from assms(2) have dc: "distinct (map column_id (columns st))"
    and dt: "\<forall>col \<in> set (columns st). distinct (map task_id (column_tasks col))"
    by (simp_all add: kanban_well_formed_def list_all_iff)
  from assms(3) obtain scol where scol: "scol \<in> set (columns st)" "column_id scol = src"
    "t \<in> set (column_tasks scol)"
    by (auto simp: task_in_column_def list_ex_iff)
  from dc have inj: "inj_on column_id (set (columns st))" by (simp add: distinct_map)
  have only: "col = scol" if "col \<in> set (columns st)" "column_id col = src" for col
    using that scol(1,2) inj by (auto dest: inj_onD)
  have same: "columns (handleDrop target st) = columns st" if "src = target"
    using that assms(1) by (simp add: handleDrop_def)
  have moved: "columns (handleDrop target st) = map (dropped_column t src target) (columns st)"
    if ne: "src \<noteq> target"
  proof -
    have step: "(if column_id col = src
           then col\<lparr>column_tasks := filter (\<lambda>x. task_id x \<noteq> task_id t) (column_tasks col)\<rparr>
           else if column_id col = target then col\<lparr>column_tasks := column_tasks col @ [t]\<rparr>
           else col) = dropped_column t src target col"
      if col: "col \<in> set (columns st)" for col
    proof (cases "column_id col = src")
      case True
      from only[OF col True] scol(3) have "t \<in> set (column_tasks col)" by simp
      moreover from dt col have "distinct (map task_id (column_tasks col))" by simp
      ultimately have "filter (\<lambda>x. task_id x \<noteq> task_id t) (column_tasks col)
                       = remove1 t (column_tasks col)"
        by (simp add: filter_id_remove1)
      with True show ?thesis by (simp add: dropped_column_def)
    next
      case False
      then show ?thesis by (simp add: dropped_column_def)
    qed
    have "columns (handleDrop target st) =
            map (\<lambda>col. if column_id col = src
                  then col\<lparr>column_tasks := filter (\<lambda>x. task_id x \<noteq> task_id t) (column_tasks col)\<rparr>
                  else if column_id col = target then col\<lparr>column_tasks := column_tasks col @ [t]\<rparr>
                  else col) (columns st)"
      using ne assms(1) by (simp add: handleDrop_def)
    also have "\<dots> = map (dropped_column t src target) (columns st)"
      by (rule map_cong[OF refl]) (rule step)
    finally show ?thesis .
  qed
  have "all_tasks (handleDrop target st) = all_tasks st"
  proof (cases "src = target")
    case True
    with same show ?thesis by (simp add: all_tasks_def)
  next
    case False
    have each: "\<forall>col \<in> set (columns st). column_id col = src \<longrightarrow> t \<in> set (column_tasks col)"
      using only scol(3) by blast
    have "src \<in> set (map column_id (columns st))" using scol(1,2) by force
    from one_with_id[OF dc this] one_with_id[OF dc assms(4)]
      mset_dropped_columns[OF False each]
    have "mset (concat (map column_tasks (map (dropped_column t src target) (columns st))))
          = mset (concat (map column_tasks (columns st)))"
      by simp
    with moved[OF False] show ?thesis by (simp add: all_tasks_def)
  qed
  with same moved show ?thesis by blast
qed

text \<open>
  A task picked up in the backlog of the sample board: dropped on the next column it
  moves to the end of that column, dropped on the backlog it stays.
\<close>

theorem handleDrop_moves_task_witness:
  "draggedTask (handleDragStart (demo_task ''1'') ''backlog'' demo_kanban)
     = Some (demo_task ''1'', ''backlog'')
   \<and> kanban_well_formed (handleDragStart (demo_task ''1'') ''backlog'' demo_kanban)
   \<and> task_in_column (handleDragStart (demo_task ''1'') ''backlog'' demo_kanban)
        (demo_task ''1'') ''backlog''
   \<and> ''todo'' \<in> set (map column_id (columns (handleDragStart (demo_task ''1'') ''backlog'' demo_kanban)))
   \<and> map column_tasks
        (columns (handleDrop ''todo'' (handleDragStart (demo_task ''1'') ''backlog'' demo_kanban)))
      = [[demo_task ''2''], [demo_task ''4'', demo_task ''1''], []]
   \<and> all_tasks (handleDrop ''todo'' (handleDragStart (demo_task ''1'') ''backlog'' demo_kanban))
      = all_tasks demo_kanban
   \<and> columns (handleDrop ''backlog'' (handleDragStart (demo_task ''1'') ''backlog'' demo_kanban))
      = columns demo_kanban"
proof -
  let ?st = "handleDragStart (demo_task ''1'') ''backlog'' demo_kanban"
  have h1: "draggedTask ?st = Some (demo_task ''1'', ''backlog'')"
    by (simp add: handleDragStart_def)
  have h2: "kanban_well_formed ?st"
    by (simp add: handleDragStart_def demo_kanban_def kanban_well_formed_def demo_task_def)
  have h3: "task_in_column ?st (demo_task ''1'') ''backlog''"
    by (simp add: handleDragStart_def demo_kanban_def task_in_column_def)
  have h4: "''todo'' \<in> set (map column_id (columns ?st))"
    by (simp add: handleDragStart_def demo_kanban_def)
  have h5: "''backlog'' \<in> set (map column_id (columns ?st))"
    by (simp add: handleDragStart_def demo_kanban_def)
  have cols: "columns ?st = columns demo_kanban" by (simp add: handleDragStart_def)
  have all: "all_tasks ?st = all_tasks demo_kanban" by (simp add: all_tasks_def cols)
  from handleDrop_moves_task[OF h1 h2 h3 h4]
  have a: "columns (handleDrop ''todo'' ?st)
           = map (dropped_column (demo_task ''1'') ''backlog'' ''todo'') (columns ?st)"
    and b: "all_tasks (handleDrop ''todo'' ?st) = all_tasks ?st" by simp_all
  have "map column_tasks (map (dropped_column (demo_task ''1'') ''backlog'' ''todo'') (columns ?st))
      = [[demo_task ''2''], [demo_task ''4'', demo_task ''1''], []]"
    by (simp add: handleDragStart_def demo_kanban_def dropped_column_def demo_task_def)
  with a have a': "map column_tasks (columns (handleDrop ''todo'' ?st))
      = [[demo_task ''2''], [demo_task ''4'', demo_task ''1''], []]"
    by (simp only:)
  from handleDrop_moves_task[OF h1 h2 h3 h5]
  have c: "columns (handleDrop ''backlog'' ?st) = columns ?st" by simp
  from h1 h2 h3 h4 a' b c cols all show ?thesis by simp
qed

end
